theory Spec2Isabelle
  imports Complex_Main
begin

section \<open>The board and its addressing (sudoku.py)\<close>

text \<open>
  The board is a NumPy array of shape \<open>(3, 3, 3, 3)\<close>, indexed
  \<open>board[cellRows, cell, innerRow, elem]\<close>: band of blocks, block within the band, row
  within the block, element within that row. It is modelled as a four-fold nested list.
  The array holds \<open>float64\<close> numbers that are always whole (\<open>np.zeros\<close>, then digits
  written by \<open>set_value\<close>); they are modelled as \<open>int\<close>.
\<close>

type_synonym board = "int list list list list"

datatype error = AssertionError | UnboundLocalError | ValueError

definition shape_ok :: "board \<Rightarrow> bool" where
  "shape_ok b \<longleftrightarrow>
     length b = 3 \<and>
     list_all (\<lambda>band. length band = 3 \<and>
       list_all (\<lambda>blk. length blk = 3 \<and>
         list_all (\<lambda>rw. length rw = 3) blk) band) b"

text \<open>\<open>np.zeros((3, 3, 3, 3))\<close>\<close>

definition zeros :: board where
  "zeros = replicate 3 (replicate 3 (replicate 3 (replicate 3 0)))"

text \<open>
  \<open>get_idx\<close>, lines 7 to 30. The assertion comes first; the two \<open>if/elif\<close> chains have
  no \<open>else\<close>, so a value that matched none of them would leave the local unbound at the
  \<open>return\<close>.
\<close>

definition get_idx :: "int \<Rightarrow> int \<Rightarrow> error + (int \<times> int \<times> int \<times> int)" where
  "get_idx row_idx col_idx =
     (if \<not> (0 \<le> row_idx \<and> row_idx \<le> 8 \<and> 0 \<le> col_idx \<and> col_idx \<le> 8)
      then Inl AssertionError
      else
        (case (if 0 \<le> row_idx \<and> row_idx \<le> 2 then Some (row_idx, 0)
               else if 3 \<le> row_idx \<and> row_idx \<le> 5 then Some (row_idx - 3, 1)
               else if 6 \<le> row_idx \<and> row_idx \<le> 8 then Some (row_idx - 6, 2)
               else None) of
           None \<Rightarrow> Inl UnboundLocalError
         | Some (innerRow, cellRows) \<Rightarrow>
            (case (if 0 \<le> col_idx \<and> col_idx \<le> 2 then Some (col_idx, 0)
                   else if 3 \<le> col_idx \<and> col_idx \<le> 5 then Some (col_idx - 3, 1)
                   else if 6 \<le> col_idx \<and> col_idx \<le> 8 then Some (col_idx - 6, 2)
                   else None) of
               None \<Rightarrow> Inl UnboundLocalError
             | Some (elem, cell) \<Rightarrow> Inr (cellRows, cell, innerRow, elem))))"

text \<open>Reading and writing one element with a full index tuple: \<open>board[t]\<close>, \<open>board[t] = v\<close>.\<close>

fun getitem :: "board \<Rightarrow> int \<times> int \<times> int \<times> int \<Rightarrow> int" where
  "getitem b (cellRows, cell, innerRow, elem) =
     b ! nat cellRows ! nat cell ! nat innerRow ! nat elem"

fun setitem :: "board \<Rightarrow> int \<times> int \<times> int \<times> int \<Rightarrow> int \<Rightarrow> board" where
  "setitem b (cellRows, cell, innerRow, elem) v =
     b[nat cellRows := (b ! nat cellRows)[nat cell := (b ! nat cellRows ! nat cell)
        [nat innerRow := (b ! nat cellRows ! nat cell ! nat innerRow)[nat elem := v]]]]"

text \<open>
  \<open>set_value\<close>, lines 33 to 37. \<open>board.copy()\<close> is a fresh array, so on values the function
  is the functional update; the version on a store of arrays follows below.
\<close>

definition set_value :: "int \<Rightarrow> int \<Rightarrow> board \<Rightarrow> int \<Rightarrow> error + board" where
  "set_value row col b v =
     (case get_idx row col of
        Inl e \<Rightarrow> Inl e
      | Inr t \<Rightarrow> Inr (setitem b t v))"

text \<open>
  \<open>check_legal\<close>, lines 104 to 127 (\<open>verbose\<close> only prints and logs). The three slices are
  \<open>board[cellRows, cell, :, :]\<close>, \<open>board[cellRows, :, innerRow, :]\<close> and
  \<open>board[:, cell, :, elem]\<close>, each flattened; \<open>np.count_nonzero(area == val)\<close> counts the
  entries equal to \<open>val\<close>.
\<close>

definition current_cell_values :: "board \<Rightarrow> int \<Rightarrow> int \<Rightarrow> int list" where
  "current_cell_values b cellRows cell = concat (b ! nat cellRows ! nat cell)"

definition horizontal_to_val :: "board \<Rightarrow> int \<Rightarrow> int \<Rightarrow> int list" where
  "horizontal_to_val b cellRows innerRow =
     concat (map (\<lambda>blk. blk ! nat innerRow) (b ! nat cellRows))"

definition vertical_to_val :: "board \<Rightarrow> int \<Rightarrow> int \<Rightarrow> int list" where
  "vertical_to_val b cell elem =
     concat (map (\<lambda>band. map (\<lambda>rw. rw ! nat elem) (band ! nat cell)) b)"

definition check_legal :: "int \<Rightarrow> int \<Rightarrow> board \<Rightarrow> error + bool" where
  "check_legal row_idx col_idx b =
     (case get_idx row_idx col_idx of
        Inl e \<Rightarrow> Inl e
      | Inr (cellRows, cell, innerRow, elem) \<Rightarrow>
          (let val = getitem b (cellRows, cell, innerRow, elem) in
           if val = 0 then Inr False
           else Inr (fold (\<lambda>area legal_flag. if count_list area val > 1 then False else legal_flag)
                       [current_cell_values b cellRows cell,
                        horizontal_to_val b cellRows innerRow,
                        vertical_to_val b cell elem] True)))"

text \<open>
  The flat view of the board: the cell that \<open>board[get_idx(row, col)]\<close> reads, for row and
  col in \<open>0..8\<close> (see \<open>get_idx_in_range\<close>).
\<close>

definition cell_at :: "board \<Rightarrow> int \<Rightarrow> int \<Rightarrow> int" where
  "cell_at b row col = getitem b (row div 3, col div 3, row mod 3, col mod 3)"

section \<open>The coordinate mapper\<close>

lemma get_idx_in_range:
  assumes "0 \<le> r" "r \<le> 8" "0 \<le> c" "c \<le> 8"
  shows "get_idx r c = Inr (r div 3, c div 3, r mod 3, c mod 3)"
proof -
  have r: "(0 \<le> r \<and> r \<le> 2 \<and> r div 3 = 0 \<and> r mod 3 = r)
         \<or> (3 \<le> r \<and> r \<le> 5 \<and> r div 3 = 1 \<and> r mod 3 = r - 3)
         \<or> (6 \<le> r \<and> r \<le> 8 \<and> r div 3 = 2 \<and> r mod 3 = r - 6)"
    using assms(1,2) by presburger
  have c: "(0 \<le> c \<and> c \<le> 2 \<and> c div 3 = 0 \<and> c mod 3 = c)
         \<or> (3 \<le> c \<and> c \<le> 5 \<and> c div 3 = 1 \<and> c mod 3 = c - 3)
         \<or> (6 \<le> c \<and> c \<le> 8 \<and> c div 3 = 2 \<and> c mod 3 = c - 6)"
    using assms(3,4) by presburger
  from r c assms show ?thesis
    unfolding get_idx_def by (elim disjE conjE) simp_all
qed

lemma get_idx_out_of_range:
  "\<not> (0 \<le> r \<and> r \<le> 8 \<and> 0 \<le> c \<and> c \<le> 8) \<Longrightarrow> get_idx r c = Inl AssertionError"
  by (simp add: get_idx_def)

text \<open>
  Modelled from the spec: \<open>to_flat\<close>, the inverse of the coordinate mapper, is not in
  sudoku.py (which only has \<open>get_idx\<close>, the spec's \<open>to_block\<close>). Section 4.1 of the spec
  gives it as the inverse of \<open>block = row // 3\<close>, \<open>inner = row % 3\<close>, with block components
  constrained to \<open>0..2\<close>; \<open>None\<close> stands for the spec's \<open>InvalidCoordinate\<close>.
\<close>

definition to_flat :: "int \<times> int \<times> int \<times> int \<Rightarrow> (int \<times> int) option" where
  "to_flat t =
     (case t of (block_row, block_col, inner_row, inner_col) \<Rightarrow>
        if 0 \<le> block_row \<and> block_row \<le> 2 \<and> 0 \<le> block_col \<and> block_col \<le> 2 \<and>
           0 \<le> inner_row \<and> inner_row \<le> 2 \<and> 0 \<le> inner_col \<and> inner_col \<le> 2
        then Some (3 * block_row + inner_row, 3 * block_col + inner_col)
        else None)"

definition flat_coords :: "(int \<times> int) set" where
  "flat_coords = {0..8} \<times> {0..8}"

definition block_coords :: "(int \<times> int \<times> int \<times> int) set" where
  "block_coords = {0..2} \<times> {0..2} \<times> {0..2} \<times> {0..2}"

lemma div_mod_3_bounds:
  fixes r :: int
  assumes "0 \<le> r" "r \<le> 8"
  shows "0 \<le> r div 3" "r div 3 \<le> 2" "0 \<le> r mod 3" "r mod 3 \<le> 2"
  using assms by presburger+

lemma to_flat_get_idx:
  assumes "0 \<le> r" "r \<le> 8" "0 \<le> c" "c \<le> 8"
  shows "to_flat (r div 3, c div 3, r mod 3, c mod 3) = Some (r, c)"
  using div_mod_3_bounds[OF assms(1,2)] div_mod_3_bounds[OF assms(3,4)]
  by (simp add: to_flat_def)

lemma get_idx_compose:
  fixes a i :: int
  assumes "0 \<le> a" "a \<le> 2" "0 \<le> i" "i \<le> 2"
  shows "0 \<le> 3 * a + i" "3 * a + i \<le> 8" "(3 * a + i) div 3 = a" "(3 * a + i) mod 3 = i"
  using assms by presburger+

lemma get_idx_to_flat:
  assumes "0 \<le> a" "a \<le> 2" "0 \<le> b" "b \<le> 2" "0 \<le> i" "i \<le> 2" "0 \<le> j" "j \<le> 2"
  shows "get_idx (3 * a + i) (3 * b + j) = Inr (a, b, i, j)"
  using get_idx_compose[OF assms(1,2,5,6)] get_idx_compose[OF assms(3,4,7,8)]
  by (simp add: get_idx_in_range)

lemma get_idx_image:
  "(\<lambda>(r, c). get_idx r c) ` flat_coords = Inr ` block_coords"
proof (intro equalityI subsetI)
  fix x assume "x \<in> (\<lambda>(r, c). get_idx r c) ` flat_coords"
  then obtain r c where rc: "0 \<le> r" "r \<le> 8" "0 \<le> c" "c \<le> 8" and x: "x = get_idx r c"
    by (auto simp: flat_coords_def)
  show "x \<in> Inr ` block_coords"
    using div_mod_3_bounds[OF rc(1,2)] div_mod_3_bounds[OF rc(3,4)]
    by (simp add: x get_idx_in_range[OF rc] block_coords_def)
next
  fix x :: "error + int \<times> int \<times> int \<times> int"
  assume "x \<in> Inr ` block_coords"
  then obtain a b i j where
    t: "0 \<le> a" "a \<le> 2" "0 \<le> b" "b \<le> 2" "0 \<le> i" "i \<le> 2" "0 \<le> j" "j \<le> 2"
    and x: "x = Inr (a, b, i, j)"
    by (auto simp: block_coords_def)
  have "(3 * a + i, 3 * b + j) \<in> flat_coords"
    using get_idx_compose[OF t(1,2,5,6)] get_idx_compose[OF t(3,4,7,8)]
    by (simp add: flat_coords_def)
  moreover have "x = (\<lambda>(r, c). get_idx r c) (3 * a + i, 3 * b + j)"
    by (simp add: x get_idx_to_flat[OF t])
  ultimately show "x \<in> (\<lambda>(r, c). get_idx r c) ` flat_coords"
    by (rule image_eqI[rotated])
qed

lemma get_idx_inj: "inj_on (\<lambda>(r, c). get_idx r c) flat_coords"
proof (rule inj_onI)
  fix x y assume x: "x \<in> flat_coords" and y: "y \<in> flat_coords"
    and eq: "(\<lambda>(r, c). get_idx r c) x = (\<lambda>(r, c). get_idx r c) y"
  obtain r c where xrc: "x = (r, c)" by (cases x)
  obtain r' c' where yrc: "y = (r', c')" by (cases y)
  have rc: "0 \<le> r" "r \<le> 8" "0 \<le> c" "c \<le> 8"
    using x by (simp_all add: xrc flat_coords_def)
  have rc': "0 \<le> r'" "r' \<le> 8" "0 \<le> c'" "c' \<le> 8"
    using y by (simp_all add: yrc flat_coords_def)
  from eq have "(r div 3, c div 3, r mod 3, c mod 3) = (r' div 3, c' div 3, r' mod 3, c' mod 3)"
    by (simp add: xrc yrc get_idx_in_range[OF rc] get_idx_in_range[OF rc'])
  then have "to_flat (r div 3, c div 3, r mod 3, c mod 3)
           = to_flat (r' div 3, c' div 3, r' mod 3, c' mod 3)"
    by simp
  then show "x = y"
    by (simp add: xrc yrc to_flat_get_idx[OF rc] to_flat_get_idx[OF rc'])
qed

text \<open>
  C3. For row and col in \<open>0..8\<close>, \<open>get_idx(row, col)\<close> returns
  \<open>(row // 3, col // 3, row % 3, col % 3)\<close>, in the order block-row, block-col, inner-row,
  inner-col; in particular \<open>get_idx(3, 7) = (1, 2, 0, 1)\<close>.
\<close>

theorem get_idx_is_div_mod:
  "(0 \<le> row \<and> row \<le> 8 \<and> 0 \<le> col \<and> col \<le> 8 \<longrightarrow>
      get_idx row col = Inr (row div 3, col div 3, row mod 3, col mod 3))
   \<and> get_idx 3 7 = Inr (1, 2, 0, 1)"
  by (simp add: get_idx_in_range)

theorem get_idx_is_div_mod_witness:
  "(0::int) \<le> 5 \<and> (5::int) \<le> 8 \<and> (0::int) \<le> 6 \<and> (6::int) \<le> 8
   \<and> get_idx 5 6 = Inr (1, 2, 2, 0) \<and> get_idx 3 7 = Inr (1, 2, 0, 1)"
  using get_idx_is_div_mod[of 5 6] by simp

text \<open>
  C4. The coordinate mapper is a bijection between the 81 flat coordinates and the 81 block
  coordinates: \<open>get_idx\<close> on \<open>0..8 \<times> 0..8\<close> is injective and onto \<open>(0..2)^4\<close>, and
  \<open>to_flat (to_block (row, col)) = (row, col)\<close> for all 81 pairs.
\<close>

theorem get_idx_bijection:
  "inj_on (\<lambda>(r, c). get_idx r c) flat_coords
   \<and> (\<lambda>(r, c). get_idx r c) ` flat_coords = Inr ` block_coords
   \<and> card flat_coords = 81 \<and> card block_coords = 81
   \<and> (\<forall>(row, col) \<in> flat_coords.
        \<exists>t. get_idx row col = Inr t \<and> to_flat t = Some (row, col))"
proof (intro conjI)
  show "inj_on (\<lambda>(r, c). get_idx r c) flat_coords" by (rule get_idx_inj)
  show "(\<lambda>(r, c). get_idx r c) ` flat_coords = Inr ` block_coords" by (rule get_idx_image)
  show "card flat_coords = 81" by (simp add: flat_coords_def)
  show "card block_coords = 81" by (simp add: block_coords_def)
  show "\<forall>(row, col) \<in> flat_coords. \<exists>t. get_idx row col = Inr t \<and> to_flat t = Some (row, col)"
    by (auto simp: flat_coords_def get_idx_in_range to_flat_get_idx)
qed

theorem get_idx_bijection_witness:
  "(3, 7) \<in> flat_coords \<and> get_idx 3 7 = Inr (1, 2, 0, 1) \<and> to_flat (1, 2, 0, 1) = Some (3, 7)
   \<and> (1, 2, 0, 1) \<in> block_coords"
proof -
  have m: "(3, 7) \<in> flat_coords" by (simp add: flat_coords_def)
  have g: "get_idx 3 7 = Inr (1, 2, 0, 1)" by (simp add: get_idx_def)
  from get_idx_bijection m
  have "\<exists>t. get_idx 3 7 = Inr t \<and> to_flat t = Some (3, 7)" by blast
  with g have "to_flat (1, 2, 0, 1) = Some (3, 7)" by simp
  with m g show ?thesis by (simp add: block_coords_def)
qed

section \<open>Reading and writing cells\<close>

lemma list3: "length xs = 3 \<Longrightarrow> xs = [xs ! 0, xs ! Suc 0, xs ! 2]"
  by (cases xs; cases "tl xs"; cases "tl (tl xs)") auto

lemma shape_ok_length: "shape_ok b \<Longrightarrow> length b = 3"
  by (simp add: shape_ok_def)

lemma shape_ok_nth1: "shape_ok b \<Longrightarrow> a < 3 \<Longrightarrow> length (b ! a) = 3"
  by (simp add: shape_ok_def list_all_length)

lemma shape_ok_nth2: "shape_ok b \<Longrightarrow> a < 3 \<Longrightarrow> k < 3 \<Longrightarrow> length (b ! a ! k) = 3"
  by (simp add: shape_ok_def list_all_length)

lemma shape_ok_nth3:
  "shape_ok b \<Longrightarrow> a < 3 \<Longrightarrow> k < 3 \<Longrightarrow> i < 3 \<Longrightarrow> length (b ! a ! k ! i) = 3"
  by (simp add: shape_ok_def list_all_length)

lemma shape_ok_zeros: "shape_ok zeros"
  by (simp add: shape_ok_def zeros_def numeral_3_eq_3)

lemma list_all_update: "list_all P xs \<Longrightarrow> P x \<Longrightarrow> list_all P (xs[i := x])"
  by (cases "i < length xs") (auto simp: list_all_length nth_list_update)

lemma list_all_nth: "list_all P xs \<Longrightarrow> i < length xs \<Longrightarrow> P (xs ! i)"
  by (simp add: list_all_length)

lemma shape_ok_setitem:
  assumes "shape_ok b" "t \<in> block_coords"
  shows "shape_ok (setitem b t v)"
proof -
  obtain a k i j where t: "t = (a, k, i, j)" by (cases t)
  have r: "nat a < 3" "nat k < 3" "nat i < 3" "nat j < 3"
    using assms(2) by (auto simp: t block_coords_def)
  let ?P3 = "\<lambda>rw::int list. length rw = 3"
  let ?P2 = "\<lambda>blk. length blk = 3 \<and> list_all ?P3 blk"
  let ?P1 = "\<lambda>band. length band = 3 \<and> list_all ?P2 band"
  from assms(1) have b: "length b = 3" "list_all ?P1 b" by (simp_all add: shape_ok_def)
  have p1: "?P1 (b ! nat a)" using list_all_nth[OF b(2), of "nat a"] r b(1) by simp
  have p2: "?P2 (b ! nat a ! nat k)" using list_all_nth[of ?P2 "b ! nat a" "nat k"] p1 r by simp
  have p3: "?P3 (b ! nat a ! nat k ! nat i)"
    using list_all_nth[of ?P3 "b ! nat a ! nat k" "nat i"] p2 r by simp
  have q3: "?P3 ((b ! nat a ! nat k ! nat i)[nat j := v])" using p3 by simp
  have q2: "?P2 ((b ! nat a ! nat k)[nat i := (b ! nat a ! nat k ! nat i)[nat j := v]])"
    using p2 q3 by (simp add: list_all_update)
  have q1: "?P1 ((b ! nat a)[nat k := (b ! nat a ! nat k)
        [nat i := (b ! nat a ! nat k ! nat i)[nat j := v]]])"
    using p1 q2 by (simp add: list_all_update)
  show ?thesis
    unfolding t shape_ok_def setitem.simps using b q1 by (simp add: list_all_update)
qed

lemma getitem_setitem_same:
  assumes "shape_ok b" "t \<in> block_coords"
  shows "getitem (setitem b t v) t = v"
proof -
  obtain a k i j where t: "t = (a, k, i, j)" by (cases t)
  have r: "nat a < 3" "nat k < 3" "nat i < 3" "nat j < 3"
    using assms(2) by (auto simp: t block_coords_def)
  show ?thesis
    using r unfolding t
    by (simp add: shape_ok_length[OF assms(1)] shape_ok_nth1[OF assms(1)]
        shape_ok_nth2[OF assms(1)] shape_ok_nth3[OF assms(1)])
qed

lemma getitem_setitem_other:
  assumes "shape_ok b" "t \<in> block_coords" "t' \<in> block_coords" "t \<noteq> t'"
  shows "getitem (setitem b t v) t' = getitem b t'"
proof -
  obtain a k i j where t: "t = (a, k, i, j)" by (cases t)
  obtain a' k' i' j' where t': "t' = (a', k', i', j')" by (cases t')
  have r: "nat a < 3" "nat k < 3" "nat i < 3" "nat j < 3" "0 \<le> a" "0 \<le> k" "0 \<le> i" "0 \<le> j"
    using assms(2) by (auto simp: t block_coords_def)
  have r': "nat a' < 3" "nat k' < 3" "nat i' < 3" "nat j' < 3" "0 \<le> a'" "0 \<le> k'" "0 \<le> i'" "0 \<le> j'"
    using assms(3) by (auto simp: t' block_coords_def)
  note L = shape_ok_length[OF assms(1)] shape_ok_nth1[OF assms(1)]
        shape_ok_nth2[OF assms(1)] shape_ok_nth3[OF assms(1)]
  note E = eq_nat_nat_iff[OF r(5) r'(5)] eq_nat_nat_iff[OF r(6) r'(6)]
    eq_nat_nat_iff[OF r(7) r'(7)] eq_nat_nat_iff[OF r(8) r'(8)]
  show ?thesis
  proof (cases "a = a'")
    case False
    then show ?thesis unfolding t t' by (simp add: E)
  next
    case a: True
    show ?thesis
    proof (cases "k = k'")
      case False
      then show ?thesis unfolding t t' using a r r' by (simp add: L E)
    next
      case k: True
      show ?thesis
      proof (cases "i = i'")
        case False
        then show ?thesis unfolding t t' using a k r r' by (simp add: L E)
      next
        case i: True
        have "j \<noteq> j'" using assms(4) a k i by (simp add: t t')
        then show ?thesis unfolding t t' using a k i r r' by (simp add: L E)
      qed
    qed
  qed
qed

section \<open>The legality checker\<close>

definition block_cells :: "int \<Rightarrow> int \<Rightarrow> (int \<times> int) list" where
  "block_cells row col =
     concat (map (\<lambda>i. map (\<lambda>j. (3 * (row div 3) + i, 3 * (col div 3) + j)) [0..2]) [0..2])"

definition row_cells :: "int \<Rightarrow> (int \<times> int) list" where
  "row_cells row = map (\<lambda>c. (row, c)) [0..8]"

definition col_cells :: "int \<Rightarrow> (int \<times> int) list" where
  "col_cells col = map (\<lambda>r. (r, col)) [0..8]"

lemma div3_facts:
  fixes a :: int
  shows "(3 * a) div 3 = a" "(3 * a + 1) div 3 = a" "(3 * a + 2) div 3 = a"
    "(3 * a) mod 3 = 0" "(3 * a + 1) mod 3 = 1" "(3 * a + 2) mod 3 = 2"
  by presburger+

lemma upto_0_2: "[0..2::int] = [0, 1, 2]"
  by (simp add: upto.simps)

lemma current_cell_values_cells:
  assumes "shape_ok b" "0 \<le> r" "r \<le> 8" "0 \<le> c" "c \<le> 8"
  shows "current_cell_values b (r div 3) (c div 3)
       = map (\<lambda>(r', c'). cell_at b r' c') (block_cells r c)"
proof -
  have a: "nat (r div 3) < 3" and k: "nat (c div 3) < 3"
    using div_mod_3_bounds[OF assms(2,3)] div_mod_3_bounds[OF assms(4,5)] by simp_all
  define X where "X = b ! nat (r div 3) ! nat (c div 3)"
  have X: "length X = 3" "length (X ! 0) = 3" "length (X ! 1) = 3" "length (X ! 2) = 3"
    unfolding X_def using shape_ok_nth2[OF assms(1) a k] shape_ok_nth3[OF assms(1) a k]
    by simp_all
  have "concat X = concat [X ! 0, X ! 1, X ! 2]" using list3[OF X(1)] by simp
  also have "\<dots> = [X ! 0 ! 0, X ! 0 ! 1, X ! 0 ! 2, X ! 1 ! 0, X ! 1 ! 1, X ! 1 ! 2,
       X ! 2 ! 0, X ! 2 ! 1, X ! 2 ! 2]"
    using list3[OF X(2)] list3[OF X(3)] list3[OF X(4)] by simp
  finally have L: "concat X = [X ! 0 ! 0, X ! 0 ! 1, X ! 0 ! 2, X ! 1 ! 0, X ! 1 ! 1, X ! 1 ! 2,
       X ! 2 ! 0, X ! 2 ! 1, X ! 2 ! 2]" .
  show ?thesis
    unfolding current_cell_values_def X_def[symmetric] L
    by (simp add: block_cells_def cell_at_def div3_facts X_def upto_0_2)
qed

lemma upto_0_8: "[0..8::int] = [0, 1, 2, 3, 4, 5, 6, 7, 8]"
  by (simp add: upto.simps)

lemma map3: "length xs = 3 \<Longrightarrow> map f xs = [f (xs ! 0), f (xs ! Suc 0), f (xs ! 2)]"
  by (cases xs; cases "tl xs"; cases "tl (tl xs)") auto

lemma nat_div_mod_numerals:
  "nat ((0::int) div 3) = 0" "nat ((1::int) div 3) = 0" "nat ((2::int) div 3) = 0"
  "nat ((3::int) div 3) = Suc 0" "nat ((4::int) div 3) = Suc 0" "nat ((5::int) div 3) = Suc 0"
  "nat ((6::int) div 3) = 2" "nat ((7::int) div 3) = 2" "nat ((8::int) div 3) = 2"
  "nat ((0::int) mod 3) = 0" "nat ((1::int) mod 3) = Suc 0" "nat ((2::int) mod 3) = 2"
  "nat ((3::int) mod 3) = 0" "nat ((4::int) mod 3) = Suc 0" "nat ((5::int) mod 3) = 2"
  "nat ((6::int) mod 3) = 0" "nat ((7::int) mod 3) = Suc 0" "nat ((8::int) mod 3) = 2"
  by simp_all

lemma horizontal_to_val_cells:
  assumes "shape_ok b" "0 \<le> r" "r \<le> 8"
  shows "horizontal_to_val b (r div 3) (r mod 3)
       = map (\<lambda>(r', c'). cell_at b r' c') (row_cells r)"
proof -
  have a: "nat (r div 3) < 3" and i: "nat (r mod 3) < 3"
    using div_mod_3_bounds[OF assms(2,3)] by simp_all
  define X where "X = b ! nat (r div 3)"
  define n where "n = nat (r mod 3)"
  have X: "length X = 3" "length (X ! 0 ! n) = 3" "length (X ! Suc 0 ! n) = 3"
    "length (X ! 2 ! n) = 3"
    unfolding X_def n_def using shape_ok_nth1[OF assms(1) a] shape_ok_nth3[OF assms(1) a _ i]
    by simp_all
  have "concat (map (\<lambda>blk. blk ! n) X) = X ! 0 ! n @ X ! Suc 0 ! n @ X ! 2 ! n"
    by (simp add: map3[OF X(1)])
  also have "\<dots> = map (\<lambda>j. X ! 0 ! n ! j) [0, Suc 0, 2] @ map (\<lambda>j. X ! Suc 0 ! n ! j) [0, Suc 0, 2]
       @ map (\<lambda>j. X ! 2 ! n ! j) [0, Suc 0, 2]"
    using list3[OF X(2)] list3[OF X(3)] list3[OF X(4)] by simp
  finally show ?thesis
    unfolding horizontal_to_val_def X_def[symmetric] n_def[symmetric]
    by (simp add: row_cells_def cell_at_def upto_0_8 nat_div_mod_numerals
        X_def[symmetric] n_def[symmetric])
qed

lemma vertical_to_val_cells:
  assumes "shape_ok b" "0 \<le> c" "c \<le> 8"
  shows "vertical_to_val b (c div 3) (c mod 3)
       = map (\<lambda>(r', c'). cell_at b r' c') (col_cells c)"
proof -
  have k: "nat (c div 3) < 3" and j: "nat (c mod 3) < 3"
    using div_mod_3_bounds[OF assms(2,3)] by simp_all
  define m where "m = nat (c div 3)"
  define n where "n = nat (c mod 3)"
  have B: "length b = 3" using shape_ok_length[OF assms(1)] .
  have X: "length (b ! 0 ! m) = 3" "length (b ! Suc 0 ! m) = 3" "length (b ! 2 ! m) = 3"
    unfolding m_def using shape_ok_nth2[OF assms(1) _ k] by simp_all
  let ?f = "\<lambda>band. map (\<lambda>rw. rw ! n) (band ! m)"
  have "concat (map ?f b) = ?f (b ! 0) @ ?f (b ! Suc 0) @ ?f (b ! 2)"
    by (simp add: map3[OF B])
  also have "\<dots> = [b ! 0 ! m ! 0 ! n, b ! 0 ! m ! Suc 0 ! n, b ! 0 ! m ! 2 ! n,
      b ! Suc 0 ! m ! 0 ! n, b ! Suc 0 ! m ! Suc 0 ! n, b ! Suc 0 ! m ! 2 ! n,
      b ! 2 ! m ! 0 ! n, b ! 2 ! m ! Suc 0 ! n, b ! 2 ! m ! 2 ! n]"
    by (simp add: map3[OF X(1)] map3[OF X(2)] map3[OF X(3)])
  finally show ?thesis
    unfolding vertical_to_val_def m_def[symmetric] n_def[symmetric]
    by (simp add: col_cells_def cell_at_def upto_0_8 nat_div_mod_numerals
        m_def[symmetric] n_def[symmetric])
qed

definition shares_region :: "int \<times> int \<Rightarrow> int \<times> int \<Rightarrow> bool" where
  "shares_region p q \<longleftrightarrow>
     (fst p div 3 = fst q div 3 \<and> snd p div 3 = snd q div 3) \<or> fst p = fst q \<or> snd p = snd q"

lemma count_list_pos: "count_list (map f xs) v > 0 \<longleftrightarrow> (\<exists>x\<in>set xs. f x = v)"
  by (induction xs) auto

lemma count_list_gt1:
  "distinct xs \<Longrightarrow> x0 \<in> set xs \<Longrightarrow> f x0 = v \<Longrightarrow>
     count_list (map f xs) v > 1 \<longleftrightarrow> (\<exists>x\<in>set xs. x \<noteq> x0 \<and> f x = v)"
proof (induction xs)
  case Nil
  then show ?case by simp
next
  case (Cons x xs)
  show ?case
  proof (cases "x = x0")
    case True
    then have "x0 \<notin> set xs" using Cons.prems(1) by simp
    then show ?thesis using True Cons.prems(3) count_list_pos[of f xs v] by auto
  next
    case False
    then have x0: "x0 \<in> set xs" using Cons.prems(2) by simp
    then have pos: "count_list (map f xs) v > 0" using Cons.prems(3) count_list_pos[of f xs v] by blast
    show ?thesis
    proof (cases "f x = v")
      case True
      then show ?thesis using pos False by auto
    next
      case fx: False
      have "distinct xs" using Cons.prems(1) by simp
      from Cons.IH[OF this x0 Cons.prems(3)] fx show ?thesis by auto
    qed
  qed
qed

lemma set_upto_0_2: "set [0..2::int] = {0..2}" by simp
lemma set_upto_0_8: "set [0..8::int] = {0..8}" by simp

lemma distinct_block_cells: "distinct (block_cells r c)"
  by (simp add: block_cells_def upto_0_2)

lemma distinct_row_cells: "distinct (row_cells r)"
  by (simp add: row_cells_def distinct_map inj_on_def)

lemma distinct_col_cells: "distinct (col_cells c)"
  by (simp add: col_cells_def distinct_map inj_on_def)

lemma in_block_cells:
  "(r', c') \<in> set (block_cells r c) \<longleftrightarrow> r' div 3 = r div 3 \<and> c' div 3 = c div 3"
proof -
  have d: "(x = 3 * (y div 3) \<or> x = 3 * (y div 3) + 1 \<or> x = 3 * (y div 3) + 2)
      \<longleftrightarrow> x div 3 = y div 3" for x y :: int
    by presburger
  have "(r', c') \<in> set (block_cells r c) \<longleftrightarrow>
      (r' = 3 * (r div 3) \<or> r' = 3 * (r div 3) + 1 \<or> r' = 3 * (r div 3) + 2) \<and>
      (c' = 3 * (c div 3) \<or> c' = 3 * (c div 3) + 1 \<or> c' = 3 * (c div 3) + 2)"
    unfolding block_cells_def upto_0_2 by simp blast
  then show ?thesis unfolding d .
qed

lemma in_row_cells: "(r', c') \<in> set (row_cells r) \<longleftrightarrow> r' = r \<and> 0 \<le> c' \<and> c' \<le> 8"
  by (auto simp: row_cells_def)

lemma in_col_cells: "(r', c') \<in> set (col_cells c) \<longleftrightarrow> c' = c \<and> 0 \<le> r' \<and> r' \<le> 8"
  by (auto simp: col_cells_def)

lemma block_cells_in_range:
  assumes "0 \<le> r" "r \<le> 8" "0 \<le> c" "c \<le> 8" "(r', c') \<in> set (block_cells r c)"
  shows "0 \<le> r' \<and> r' \<le> 8 \<and> 0 \<le> c' \<and> c' \<le> 8"
proof -
  have d: "0 \<le> y \<Longrightarrow> y \<le> 8 \<Longrightarrow> x div 3 = y div 3 \<Longrightarrow> 0 \<le> x \<and> x \<le> 8" for x y :: int
    by presburger
  from assms(5) have e: "r' div 3 = r div 3" "c' div 3 = c div 3"
    unfolding in_block_cells by simp_all
  show ?thesis using d[OF assms(1,2) e(1)] d[OF assms(3,4) e(2)] by simp
qed

lemma check_legal_regions:
  assumes "shape_ok b" "0 \<le> r" "r \<le> 8" "0 \<le> c" "c \<le> 8"
  shows "check_legal r c b =
     Inr (cell_at b r c \<noteq> 0 \<and>
          \<not> count_list (map (\<lambda>(r', c'). cell_at b r' c') (block_cells r c)) (cell_at b r c) > 1 \<and>
          \<not> count_list (map (\<lambda>(r', c'). cell_at b r' c') (row_cells r)) (cell_at b r c) > 1 \<and>
          \<not> count_list (map (\<lambda>(r', c'). cell_at b r' c') (col_cells c)) (cell_at b r c) > 1)"
  unfolding check_legal_def get_idx_in_range[OF assms(2-5)]
  by (simp add: current_cell_values_cells[OF assms] horizontal_to_val_cells[OF assms(1-3)]
      vertical_to_val_cells[OF assms(1,4,5)] cell_at_def[symmetric] Let_def del: getitem.simps)

lemma region_union:
  assumes "0 \<le> r" "r \<le> 8" "0 \<le> c" "c \<le> 8"
  shows "((r', c') \<in> set (block_cells r c) \<or> (r', c') \<in> set (row_cells r)
          \<or> (r', c') \<in> set (col_cells c))
     \<longleftrightarrow> (0 \<le> r' \<and> r' \<le> 8 \<and> 0 \<le> c' \<and> c' \<le> 8 \<and> shares_region (r, c) (r', c'))"
    (is "?L \<longleftrightarrow> ?R")
proof
  assume ?L
  then consider (blk) "(r', c') \<in> set (block_cells r c)" | (rw) "(r', c') \<in> set (row_cells r)"
    | (cl) "(r', c') \<in> set (col_cells c)" by blast
  then show ?R
  proof cases
    case blk
    from block_cells_in_range[OF assms blk] blk show ?thesis
      by (simp add: in_block_cells shares_region_def)
  next
    case rw
    then show ?thesis using assms(1,2) by (simp add: in_row_cells shares_region_def)
  next
    case cl
    then show ?thesis using assms(3,4) by (simp add: in_col_cells shares_region_def)
  qed
next
  assume R: ?R
  then have "shares_region (r, c) (r', c')" by simp
  then consider "r div 3 = r' div 3 \<and> c div 3 = c' div 3" | "r = r'" | "c = c'"
    unfolding shares_region_def by auto
  then show ?L
  proof cases
    case 1
    then show ?thesis by (simp add: in_block_cells)
  next
    case 2
    then show ?thesis using R by (simp add: in_row_cells)
  next
    case 3
    then show ?thesis using R by (simp add: in_col_cells)
  qed
qed

lemma check_legal_iff:
  assumes "shape_ok b" "0 \<le> r" "r \<le> 8" "0 \<le> c" "c \<le> 8"
  shows "check_legal r c b =
     Inr (cell_at b r c \<noteq> 0 \<and>
          (\<forall>r' c'. 0 \<le> r' \<and> r' \<le> 8 \<and> 0 \<le> c' \<and> c' \<le> 8 \<and> (r', c') \<noteq> (r, c) \<and>
              shares_region (r, c) (r', c') \<longrightarrow> cell_at b r' c' \<noteq> cell_at b r c))"
proof -
  let ?f = "\<lambda>(r', c'). cell_at b r' c'"
  let ?v = "cell_at b r c"
  let ?B = "set (block_cells r c)" and ?R = "set (row_cells r)" and ?C = "set (col_cells c)"
  have m: "(r, c) \<in> ?B" "(r, c) \<in> ?R" "(r, c) \<in> ?C"
    using assms by (simp_all add: in_block_cells in_row_cells in_col_cells)
  have f: "?f (r, c) = ?v" by simp
  note C = count_list_gt1[of "block_cells r c" "(r, c)" ?f ?v, OF distinct_block_cells m(1) f]
    count_list_gt1[of "row_cells r" "(r, c)" ?f ?v, OF distinct_row_cells m(2) f]
    count_list_gt1[of "col_cells c" "(r, c)" ?f ?v, OF distinct_col_cells m(3) f]
  have "(\<not> (\<exists>x\<in>?B. x \<noteq> (r, c) \<and> ?f x = ?v) \<and> \<not> (\<exists>x\<in>?R. x \<noteq> (r, c) \<and> ?f x = ?v)
       \<and> \<not> (\<exists>x\<in>?C. x \<noteq> (r, c) \<and> ?f x = ?v))
     \<longleftrightarrow> (\<forall>r' c'. ((r', c') \<in> ?B \<or> (r', c') \<in> ?R \<or> (r', c') \<in> ?C) \<and> (r', c') \<noteq> (r, c)
            \<longrightarrow> cell_at b r' c' \<noteq> ?v)"
    by fastforce
  also have "\<dots> \<longleftrightarrow> (\<forall>r' c'. 0 \<le> r' \<and> r' \<le> 8 \<and> 0 \<le> c' \<and> c' \<le> 8 \<and> (r', c') \<noteq> (r, c) \<and>
              shares_region (r, c) (r', c') \<longrightarrow> cell_at b r' c' \<noteq> ?v)"
    unfolding region_union[OF assms(2-5)] by blast
  finally show ?thesis
    unfolding check_legal_regions[OF assms] C by simp
qed

lemma block_index_in_range:
  assumes "0 \<le> r" "r \<le> 8" "0 \<le> c" "c \<le> 8"
  shows "(r div 3, c div 3, r mod 3, c mod 3) \<in> block_coords"
  using div_mod_3_bounds[OF assms(1,2)] div_mod_3_bounds[OF assms(3,4)]
  by (simp add: block_coords_def)

lemma block_index_eq:
  fixes r c r' c' :: int
  assumes "0 \<le> r" "r \<le> 8" "0 \<le> c" "c \<le> 8" "0 \<le> r'" "r' \<le> 8" "0 \<le> c'" "c' \<le> 8"
  shows "(r div 3, c div 3, r mod 3, c mod 3) = (r' div 3, c' div 3, r' mod 3, c' mod 3)
     \<longleftrightarrow> (r, c) = (r', c')"
proof
  assume "(r div 3, c div 3, r mod 3, c mod 3) = (r' div 3, c' div 3, r' mod 3, c' mod 3)"
  then have "to_flat (r div 3, c div 3, r mod 3, c mod 3)
           = to_flat (r' div 3, c' div 3, r' mod 3, c' mod 3)" by simp
  then show "(r, c) = (r', c')"
    by (simp add: to_flat_get_idx[OF assms(1-4)] to_flat_get_idx[OF assms(5-8)])
qed simp

lemma set_value_in_range:
  assumes "0 \<le> r" "r \<le> 8" "0 \<le> c" "c \<le> 8"
  shows "set_value r c b v = Inr (setitem b (r div 3, c div 3, r mod 3, c mod 3) v)"
  by (simp add: set_value_def get_idx_in_range[OF assms])

lemma set_value_shape:
  assumes "shape_ok b" "set_value r c b v = Inr b'"
  shows "shape_ok b'"
proof (cases "0 \<le> r \<and> r \<le> 8 \<and> 0 \<le> c \<and> c \<le> 8")
  case True
  then have rc: "0 \<le> r" "r \<le> 8" "0 \<le> c" "c \<le> 8" by simp_all
  from assms(2) have "b' = setitem b (r div 3, c div 3, r mod 3, c mod 3) v"
    by (simp add: set_value_in_range[OF rc])
  then show ?thesis
    using shape_ok_setitem[OF assms(1) block_index_in_range[OF rc]] by simp
next
  case False
  then show ?thesis using assms(2) by (simp add: set_value_def get_idx_out_of_range)
qed

lemma cell_at_set_value:
  assumes "shape_ok b" "set_value r c b v = Inr b'"
    and "0 \<le> r'" "r' \<le> 8" "0 \<le> c'" "c' \<le> 8"
  shows "cell_at b' r' c' = (if (r', c') = (r, c) then v else cell_at b r' c')"
proof (cases "0 \<le> r \<and> r \<le> 8 \<and> 0 \<le> c \<and> c \<le> 8")
  case True
  then have rc: "0 \<le> r" "r \<le> 8" "0 \<le> c" "c \<le> 8" by simp_all
  let ?t = "(r div 3, c div 3, r mod 3, c mod 3)"
  let ?t' = "(r' div 3, c' div 3, r' mod 3, c' mod 3)"
  from assms(2) have b': "b' = setitem b ?t v"
    by (simp add: set_value_in_range[OF rc])
  note t = block_index_in_range[OF rc] and t' = block_index_in_range[OF assms(3-6)]
  show ?thesis
  proof (cases "(r', c') = (r, c)")
    case True
    then show ?thesis
      using getitem_setitem_same[OF assms(1) t, of v]
      by (simp add: cell_at_def b' del: getitem.simps setitem.simps)
  next
    case False
    then have "?t \<noteq> ?t'" using block_index_eq[OF rc assms(3-6)] by auto
    from getitem_setitem_other[OF assms(1) t t' this, of v] show ?thesis
      unfolding if_not_P[OF False] by (simp add: cell_at_def b' del: getitem.simps setitem.simps)
  qed
next
  case False
  then show ?thesis using assms(2) by (simp add: set_value_def get_idx_out_of_range)
qed

lemma check_legal_local:
  assumes "shape_ok b" "shape_ok b'" "0 \<le> r" "r \<le> 8" "0 \<le> c" "c \<le> 8"
    and agree: "\<And>r' c'. 0 \<le> r' \<Longrightarrow> r' \<le> 8 \<Longrightarrow> 0 \<le> c' \<Longrightarrow> c' \<le> 8 \<Longrightarrow>
        shares_region (r, c) (r', c') \<Longrightarrow> cell_at b r' c' = cell_at b' r' c'"
  shows "check_legal r c b = check_legal r c b'"
proof -
  have self: "cell_at b r c = cell_at b' r c"
    using agree[OF assms(3-6)] by (simp add: shares_region_def)
  have "(\<forall>r' c'. 0 \<le> r' \<and> r' \<le> 8 \<and> 0 \<le> c' \<and> c' \<le> 8 \<and> (r', c') \<noteq> (r, c) \<and>
              shares_region (r, c) (r', c') \<longrightarrow> cell_at b r' c' \<noteq> cell_at b r c)
     \<longleftrightarrow> (\<forall>r' c'. 0 \<le> r' \<and> r' \<le> 8 \<and> 0 \<le> c' \<and> c' \<le> 8 \<and> (r', c') \<noteq> (r, c) \<and>
              shares_region (r, c) (r', c') \<longrightarrow> cell_at b' r' c' \<noteq> cell_at b' r c)"
    using agree self by metis
  then show ?thesis
    unfolding check_legal_iff[OF assms(1,3-6)] check_legal_iff[OF assms(2-6)] self by simp
qed

section \<open>Claims about the legality checker\<close>

text \<open>
  A board whose flat row 0 is \<open>[5, 0, 0, 0, 0, 0, 0, 0, 0]\<close> and whose other cells are empty.
\<close>

definition board_row0_five :: board where
  "board_row0_five = setitem zeros (0, 0, 0, 0) 5"

text \<open>The same board with a 9 written at flat (4, 4), outside the regions of (0, 0).\<close>

definition board_far_cell :: board where
  "board_far_cell = setitem board_row0_five (1, 1, 1, 1) 9"

text \<open>
  C2. For every board and every (row, col) in \<open>0..8 \<times> 0..8\<close>, \<open>check_legal\<close> returns false
  when the cell holds 0; otherwise, with v the value of the cell, it returns true exactly
  when no other cell of the containing block, flat row or flat column holds v. On a board
  whose flat row 0 is \<open>[5,0,0,0,0,0,0,0,0]\<close>, after 5 is written at (0,3),
  \<open>check_legal(0, 3, board)\<close> is false.
\<close>

theorem check_legal_correct:
  assumes "shape_ok b" "0 \<le> row" "row \<le> 8" "0 \<le> col" "col \<le> 8"
  shows "(cell_at b row col = 0 \<longrightarrow> check_legal row col b = Inr False)
    \<and> (cell_at b row col \<noteq> 0 \<longrightarrow>
          check_legal row col b =
            Inr (\<forall>r' c'. 0 \<le> r' \<and> r' \<le> 8 \<and> 0 \<le> c' \<and> c' \<le> 8 \<and> (r', c') \<noteq> (row, col) \<and>
                   shares_region (row, col) (r', c') \<longrightarrow> cell_at b r' c' \<noteq> cell_at b row col))
    \<and> (map (cell_at b 0) [0..8] = [5, 0, 0, 0, 0, 0, 0, 0, 0] \<longrightarrow>
          (\<exists>b'. set_value 0 3 b 5 = Inr b' \<and> check_legal 0 3 b' = Inr False))"
proof (intro conjI impI)
  assume "cell_at b row col = 0"
  then show "check_legal row col b = Inr False" by (simp add: check_legal_iff[OF assms])
next
  assume "cell_at b row col \<noteq> 0"
  then show "check_legal row col b =
            Inr (\<forall>r' c'. 0 \<le> r' \<and> r' \<le> 8 \<and> 0 \<le> c' \<and> c' \<le> 8 \<and> (r', c') \<noteq> (row, col) \<and>
                   shares_region (row, col) (r', c') \<longrightarrow> cell_at b r' c' \<noteq> cell_at b row col)"
    by (simp add: check_legal_iff[OF assms])
next
  assume row0: "map (cell_at b 0) [0..8] = [5, 0, 0, 0, 0, 0, 0, 0, 0]"
  then have c00: "cell_at b 0 0 = 5" by (simp add: upto_0_8)
  define b' where "b' = setitem b (0 div 3, 3 div 3, 0 mod 3, 3 mod 3) 5"
  have sv: "set_value 0 3 b 5 = Inr b'"
    unfolding b'_def by (rule set_value_in_range) simp_all
  have sh: "shape_ok b'" by (rule set_value_shape[OF assms(1) sv])
  have c03: "cell_at b' 0 3 = 5"
    using cell_at_set_value[OF assms(1) sv, of 0 3] by simp
  have c00': "cell_at b' 0 0 = 5"
    using cell_at_set_value[OF assms(1) sv, of 0 0] c00 by simp
  have "\<not> (\<forall>r' c'. 0 \<le> r' \<and> r' \<le> 8 \<and> 0 \<le> c' \<and> c' \<le> 8 \<and> (r', c') \<noteq> (0, 3) \<and>
              shares_region (0, 3) (r', c') \<longrightarrow> cell_at b' r' c' \<noteq> cell_at b' 0 3)"
  proof
    assume a: "\<forall>r' c'. 0 \<le> r' \<and> r' \<le> 8 \<and> 0 \<le> c' \<and> c' \<le> 8 \<and> (r', c') \<noteq> (0, 3) \<and>
              shares_region (0, 3) (r', c') \<longrightarrow> cell_at b' r' c' \<noteq> cell_at b' 0 3"
    have "cell_at b' 0 0 \<noteq> cell_at b' 0 3"
      by (rule a[rule_format]) (simp add: shares_region_def)
    then show False by (simp add: c03 c00')
  qed
  then have "check_legal 0 3 b' = Inr False"
    by (simp add: check_legal_iff[OF sh])
  with sv show "\<exists>b'. set_value 0 3 b 5 = Inr b' \<and> check_legal 0 3 b' = Inr False" by blast
qed

lemma shape_ok_row0_five: "shape_ok board_row0_five"
  unfolding board_row0_five_def
  by (rule shape_ok_setitem[OF shape_ok_zeros]) (simp add: block_coords_def)

lemma zeros_literal:
  "zeros = [[[[0, 0, 0], [0, 0, 0], [0, 0, 0]], [[0, 0, 0], [0, 0, 0], [0, 0, 0]],
             [[0, 0, 0], [0, 0, 0], [0, 0, 0]]],
            [[[0, 0, 0], [0, 0, 0], [0, 0, 0]], [[0, 0, 0], [0, 0, 0], [0, 0, 0]],
             [[0, 0, 0], [0, 0, 0], [0, 0, 0]]],
            [[[0, 0, 0], [0, 0, 0], [0, 0, 0]], [[0, 0, 0], [0, 0, 0], [0, 0, 0]],
             [[0, 0, 0], [0, 0, 0], [0, 0, 0]]]]"
  by (simp add: zeros_def numeral_3_eq_3)

theorem check_legal_correct_witness:
  "shape_ok board_row0_five \<and> (0::int) \<le> 0 \<and> (0::int) \<le> 8
   \<and> cell_at board_row0_five 0 0 \<noteq> 0
   \<and> map (cell_at board_row0_five 0) [0..8] = [5, 0, 0, 0, 0, 0, 0, 0, 0]
   \<and> check_legal 0 0 board_row0_five = Inr True
   \<and> (\<exists>b'. set_value 0 3 board_row0_five 5 = Inr b' \<and> check_legal 0 3 b' = Inr False)"
proof -
  have row0: "map (cell_at board_row0_five 0) [0..8] = [5, 0, 0, 0, 0, 0, 0, 0, 0]"
    by (simp add: board_row0_five_def zeros_literal cell_at_def upto_0_8 nat_div_mod_numerals)
  have legal: "check_legal 0 0 board_row0_five = Inr True"
    by (simp add: check_legal_def get_idx_def board_row0_five_def zeros_literal
        current_cell_values_def horizontal_to_val_def vertical_to_val_def)
  have nz: "cell_at board_row0_five 0 0 \<noteq> 0" using row0 by (simp add: upto_0_8)
  from check_legal_correct[OF shape_ok_row0_five, of 0 0] row0
  have "\<exists>b'. set_value 0 3 board_row0_five 5 = Inr b' \<and> check_legal 0 3 b' = Inr False"
    by simp
  with row0 legal nz shape_ok_row0_five show ?thesis by simp
qed

text \<open>
  C10. \<open>check_legal(row, col, board)\<close> depends only on the cells of the block, the flat row and
  the flat column of (row, col): two boards that agree on those cells get the same result.
\<close>

theorem check_legal_depends_on_regions_only:
  assumes "shape_ok b" "shape_ok b'" "0 \<le> row" "row \<le> 8" "0 \<le> col" "col \<le> 8"
    and "\<forall>r' c'. 0 \<le> r' \<and> r' \<le> 8 \<and> 0 \<le> c' \<and> c' \<le> 8 \<and> shares_region (row, col) (r', c')
           \<longrightarrow> cell_at b r' c' = cell_at b' r' c'"
  shows "check_legal row col b = check_legal row col b'"
  using assms(7) by (intro check_legal_local[OF assms(1-6)]) blast

theorem check_legal_depends_on_regions_only_witness:
  "shape_ok board_row0_five \<and> shape_ok board_far_cell
   \<and> cell_at board_far_cell 4 4 \<noteq> cell_at board_row0_five 4 4
   \<and> check_legal 0 0 board_row0_five = check_legal 0 0 board_far_cell"
proof -
  have sv: "set_value 4 4 board_row0_five 9 = Inr board_far_cell"
    by (simp add: set_value_def get_idx_def board_far_cell_def)
  have sh: "shape_ok board_far_cell"
    by (rule set_value_shape[OF shape_ok_row0_five sv])
  have agree: "\<forall>r' c'. 0 \<le> r' \<and> r' \<le> 8 \<and> 0 \<le> c' \<and> c' \<le> 8 \<and> shares_region (0, 0) (r', c')
           \<longrightarrow> cell_at board_row0_five r' c' = cell_at board_far_cell r' c'"
  proof (intro allI impI)
    fix r' c' :: int
    assume a: "0 \<le> r' \<and> r' \<le> 8 \<and> 0 \<le> c' \<and> c' \<le> 8 \<and> shares_region (0, 0) (r', c')"
    then have "(r', c') \<noteq> (4, 4)" by (auto simp: shares_region_def)
    with a cell_at_set_value[OF shape_ok_row0_five sv, of r' c']
    show "cell_at board_row0_five r' c' = cell_at board_far_cell r' c'" by auto
  qed
  have differ: "cell_at board_far_cell 4 4 \<noteq> cell_at board_row0_five 4 4"
    using cell_at_set_value[OF shape_ok_row0_five sv, of 4 4]
    by (simp add: board_row0_five_def zeros_literal cell_at_def)
  from check_legal_depends_on_regions_only[OF shape_ok_row0_five sh _ _ _ _ agree]
  have "check_legal 0 0 board_row0_five = check_legal 0 0 board_far_cell" by simp
  with shape_ok_row0_five sh differ show ?thesis by simp
qed

section \<open>Copy-on-write: set_value on a store of arrays\<close>








section \<open>Errors of set_value\<close>




section \<open>The masker\<close>












section \<open>The generator\<close>

text \<open>
  \<open>makeBoard\<close>, lines 40 to 71: three nested \<open>while\<close> loops and the rollback \<open>for\<close> loop. The
  state is the local variables; \<open>pc\<close> says which loop head is tested next (lines 45, 46 and
  49). One \<open>step\<close> is one test of a loop head together with the straight-line code that
  follows it up to the next loop head. \<open>np.random.choice(possible_values)\<close> picks an element
  of the list; the draws come from an oracle \<open>rng\<close>, a stream of naturals, each reduced
  modulo the length of the list. The array of line 42 is overwritten at once; its 81 draws
  are skipped in the oracle.
\<close>

datatype loc = Outer_loop | Middle_loop | Inner_loop

record gen_state =
  row_idx :: int
  col_idx :: int
  init_board :: board
  possible_values :: "int list"
  val :: int
  rng :: "nat \<Rightarrow> nat"
  pc :: loc

datatype outcome = Running gen_state | Returned board | Raised error

text \<open>\<open>possible_values.remove(val)\<close>: removes the first occurrence, \<open>ValueError\<close> if there is none.\<close>

definition list_remove :: "int \<Rightarrow> int list \<Rightarrow> error + int list" where
  "list_remove x xs = (if x \<in> set xs then Inr (remove1 x xs) else Inl ValueError)"

text \<open>The \<open>for i in range(rollbacks)\<close> loop of lines 53 to 59.\<close>

fun rollback :: "nat \<Rightarrow> gen_state \<Rightarrow> error + gen_state" where
  "rollback 0 s = Inr s"
| "rollback (Suc n) s =
     (case set_value (row_idx s) (col_idx s) (init_board s) 0 of
        Inl e \<Rightarrow> Inl e
      | Inr b \<Rightarrow>
          rollback n
            (if col_idx s > 0 then s\<lparr>init_board := b, col_idx := col_idx s - 1\<rparr>
             else s\<lparr>init_board := b, row_idx := row_idx s - 1, col_idx := 8\<rparr>))"

definition step :: "int \<Rightarrow> gen_state \<Rightarrow> outcome" where
  "step rollback_factor s =
     (case pc s of
        Outer_loop \<Rightarrow>
          if row_idx s < 3 * 3 then Running (s\<lparr>pc := Middle_loop\<rparr>)
          else Returned (init_board s)
      | Middle_loop \<Rightarrow>
          if col_idx s < 3 * 3
          then Running (s\<lparr>possible_values := [0..9], val := 0, pc := Inner_loop\<rparr>)
          else Running (s\<lparr>row_idx := row_idx s + 1, col_idx := 0, pc := Outer_loop\<rparr>)
      | Inner_loop \<Rightarrow>
          (case check_legal (row_idx s) (col_idx s) (init_board s) of
             Inl e \<Rightarrow> Raised e
           | Inr True \<Rightarrow> Running (s\<lparr>col_idx := col_idx s + 1, pc := Middle_loop\<rparr>)
           | Inr False \<Rightarrow>
               if length (possible_values s) = 0 then
                 (case rollback (nat (min rollback_factor (col_idx s + row_idx s * 8))) s of
                    Inl e \<Rightarrow> Raised e
                  | Inr s' \<Rightarrow> Running (s'\<lparr>possible_values := [0..9], val := 0\<rparr>))
               else
                 (case list_remove (val s) (possible_values s) of
                    Inl e \<Rightarrow> Raised e
                  | Inr pv \<Rightarrow>
                      if length pv = 0 then Running (s\<lparr>possible_values := pv\<rparr>)
                      else
                        (let v = pv ! (rng s 0 mod length pv) in
                         case set_value (row_idx s) (col_idx s) (init_board s) v of
                           Inl e \<Rightarrow> Raised e
                         | Inr b \<Rightarrow>
                             Running (s\<lparr>possible_values := pv, val := v, init_board := b,
                                        rng := (\<lambda>i. rng s (Suc i))\<rparr>)))))"

text \<open>\<open>steps n\<close> runs at most \<open>n\<close> steps; a run that has returned or raised stays there.\<close>

fun steps :: "int \<Rightarrow> nat \<Rightarrow> gen_state \<Rightarrow> outcome" where
  "steps rollback_factor 0 s = Running s"
| "steps rollback_factor (Suc n) s =
     (case step rollback_factor s of
        Running s' \<Rightarrow> steps rollback_factor n s'
      | Returned b \<Rightarrow> Returned b
      | Raised e \<Rightarrow> Raised e)"

definition initial :: "(nat \<Rightarrow> nat) \<Rightarrow> gen_state" where
  "initial rnd = \<lparr>row_idx = 0, col_idx = 0, init_board = zeros, possible_values = [],
                  val = 0, rng = (\<lambda>i. rnd (i + 81)), pc = Outer_loop\<rparr>"

text \<open>
  \<open>makeBoard\<close> with a bound on the number of steps: \<open>None\<close> when the loops are still running
  after \<open>fuel\<close> steps, otherwise the returned board or the error raised.
\<close>

definition makeBoard :: "int \<Rightarrow> nat \<Rightarrow> (nat \<Rightarrow> nat) \<Rightarrow> (error + board) option" where
  "makeBoard rollback_factor fuel rnd =
     (case steps rollback_factor fuel (initial rnd) of
        Running s \<Rightarrow> None
      | Returned b \<Rightarrow> Some (Inr b)
      | Raised e \<Rightarrow> Some (Inl e))"

text \<open>The full-board invariant, on the slices that \<open>check_legal\<close> takes.\<close>

definition has_each_digit_once :: "int list \<Rightarrow> bool" where
  "has_each_digit_once area \<longleftrightarrow>
     list_all (\<lambda>d. count_list area d = 1) [1..9] \<and> list_all (\<lambda>x. x \<noteq> 0) area"

definition full_board :: "board \<Rightarrow> bool" where
  "full_board b \<longleftrightarrow>
     shape_ok b \<and>
     list_all (\<lambda>k. has_each_digit_once (current_cell_values b (k div 3) (k mod 3))
                \<and> has_each_digit_once (horizontal_to_val b (k div 3) (k mod 3))
                \<and> has_each_digit_once (vertical_to_val b (k div 3) (k mod 3))) [0..8]"

subsection \<open>The invariant of the generation loop\<close>

definition on_board :: "int \<Rightarrow> int \<Rightarrow> bool" where
  "on_board r c \<longleftrightarrow> 0 \<le> r \<and> r \<le> 8 \<and> 0 \<le> c \<and> c \<le> 8"

text \<open>
  With the cursor at flat position \<open>p = 9 * row + col\<close>: the cells before \<open>p\<close> hold digits
  that do not clash with each other, the cell at \<open>p\<close> holds a candidate or nothing, and the
  cells after \<open>p\<close> are empty.
\<close>

definition board_inv :: "board \<Rightarrow> int \<Rightarrow> bool" where
  "board_inv b p \<longleftrightarrow>
     shape_ok b \<and>
     (\<forall>r c. on_board r c \<longrightarrow>
        (9 * r + c < p \<longrightarrow>
           1 \<le> cell_at b r c \<and> cell_at b r c \<le> 9 \<and>
           (\<forall>r' c'. on_board r' c' \<and> 9 * r' + c' < p \<and> (r', c') \<noteq> (r, c) \<and>
               shares_region (r, c) (r', c') \<longrightarrow> cell_at b r' c' \<noteq> cell_at b r c)) \<and>
        (9 * r + c = p \<longrightarrow> 0 \<le> cell_at b r c \<and> cell_at b r c \<le> 9) \<and>
        (p < 9 * r + c \<longrightarrow> cell_at b r c = 0))"

lemma on_boardD: "on_board r c \<Longrightarrow> 0 \<le> r" "on_board r c \<Longrightarrow> r \<le> 8"
  "on_board r c \<Longrightarrow> 0 \<le> c" "on_board r c \<Longrightarrow> c \<le> 8"
  by (simp_all add: on_board_def)

lemma flat_pos_inj:
  assumes "on_board r c" "on_board r' c'" "9 * r + c = 9 * r' + c'"
  shows "r = r' \<and> c = c'"
proof -
  note b = on_boardD[OF assms(1)] on_boardD[OF assms(2)]
  have "\<not> r < r'" using b assms(3) by linarith
  moreover have "\<not> r' < r" using b assms(3) by linarith
  ultimately have "r = r'" by linarith
  with assms(3) show ?thesis by simp
qed

lemma shares_region_sym: "shares_region p q = shares_region q p"
  by (auto simp: shares_region_def)

lemma board_inv_shape: "board_inv b p \<Longrightarrow> shape_ok b"
  by (simp add: board_inv_def)

lemma board_inv_filled:
  "board_inv b p \<Longrightarrow> on_board r c \<Longrightarrow> 9 * r + c < p \<Longrightarrow> 1 \<le> cell_at b r c \<and> cell_at b r c \<le> 9"
  by (simp add: board_inv_def)

lemma board_inv_differ:
  "board_inv b p \<Longrightarrow> on_board r c \<Longrightarrow> 9 * r + c < p \<Longrightarrow> on_board r' c' \<Longrightarrow>
     9 * r' + c' < p \<Longrightarrow> (r', c') \<noteq> (r, c) \<Longrightarrow> shares_region (r, c) (r', c') \<Longrightarrow>
     cell_at b r' c' \<noteq> cell_at b r c"
  unfolding board_inv_def by blast

lemma board_inv_cursor:
  "board_inv b p \<Longrightarrow> on_board r c \<Longrightarrow> 9 * r + c = p \<Longrightarrow> 0 \<le> cell_at b r c \<and> cell_at b r c \<le> 9"
  by (simp add: board_inv_def)

lemma board_inv_empty:
  "board_inv b p \<Longrightarrow> on_board r c \<Longrightarrow> p < 9 * r + c \<Longrightarrow> cell_at b r c = 0"
  by (simp add: board_inv_def)

lemma board_invI:
  assumes "shape_ok b"
    and "\<And>r c. on_board r c \<Longrightarrow> 9 * r + c < p \<Longrightarrow> 1 \<le> cell_at b r c \<and> cell_at b r c \<le> 9"
    and "\<And>r c r' c'. on_board r c \<Longrightarrow> 9 * r + c < p \<Longrightarrow> on_board r' c' \<Longrightarrow>
           9 * r' + c' < p \<Longrightarrow> (r', c') \<noteq> (r, c) \<Longrightarrow> shares_region (r, c) (r', c') \<Longrightarrow>
           cell_at b r' c' \<noteq> cell_at b r c"
    and "\<And>r c. on_board r c \<Longrightarrow> 9 * r + c = p \<Longrightarrow> 0 \<le> cell_at b r c \<and> cell_at b r c \<le> 9"
    and "\<And>r c. on_board r c \<Longrightarrow> p < 9 * r + c \<Longrightarrow> cell_at b r c = 0"
  shows "board_inv b p"
  unfolding board_inv_def using assms by blast

lemma cell_at_zeros: "on_board r c \<Longrightarrow> cell_at zeros r c = 0"
proof -
  assume a: "on_board r c"
  have n: "nat (r div 3) < 3" "nat (c div 3) < 3" "nat (r mod 3) < 3" "nat (c mod 3) < 3"
    using div_mod_3_bounds[OF on_boardD(1,2)[OF a]] div_mod_3_bounds[OF on_boardD(3,4)[OF a]]
    by simp_all
  show ?thesis using n by (simp add: cell_at_def zeros_def)
qed

lemma board_inv_zeros: "board_inv zeros 0"
proof (rule board_invI)
  show "shape_ok zeros" by (rule shape_ok_zeros)
next
  fix r c assume "on_board r c" "9 * r + c < 0"
  then show "1 \<le> cell_at zeros r c \<and> cell_at zeros r c \<le> 9"
    by (simp add: on_board_def)
next
  fix r c r' c' assume "on_board r c" "9 * r + c < 0"
  then show "cell_at zeros r' c' \<noteq> cell_at zeros r c" by (simp add: on_board_def)
next
  fix r c assume "on_board r c"
  then show "0 \<le> cell_at zeros r c \<and> cell_at zeros r c \<le> 9" by (simp add: cell_at_zeros)
next
  fix r c assume "on_board r c"
  then show "cell_at zeros r c = 0" by (simp add: cell_at_zeros)
qed

lemma cell_at_set_value_other:
  assumes "shape_ok b" "set_value r c b v = Inr b'" "on_board r' c'" "(r', c') \<noteq> (r, c)"
  shows "cell_at b' r' c' = cell_at b r' c'"
  using cell_at_set_value[OF assms(1,2) on_boardD[OF assms(3)]]
  unfolding if_not_P[OF assms(4)] .

lemma cell_at_set_value_same:
  assumes "shape_ok b" "set_value r c b v = Inr b'" "on_board r c"
  shows "cell_at b' r c = v"
  using cell_at_set_value[OF assms(1,2) on_boardD[OF assms(3)]] by simp

lemma set_value_on_board:
  "on_board r c \<Longrightarrow> \<exists>b'. set_value r c b v = Inr b'"
  by (simp add: set_value_in_range on_board_def)

lemma board_inv_set_cursor:
  assumes inv: "board_inv b (9 * r + c)" and rc: "on_board r c"
    and v: "0 \<le> v" "v \<le> 9" and sv: "set_value r c b v = Inr b'"
  shows "board_inv b' (9 * r + c)"
proof (rule board_invI)
  note sh = board_inv_shape[OF inv]
  show "shape_ok b'" by (rule set_value_shape[OF sh sv])
  have other: "cell_at b' r1 c1 = cell_at b r1 c1"
    if "on_board r1 c1" "9 * r1 + c1 \<noteq> 9 * r + c" for r1 c1
    using that by (intro cell_at_set_value_other[OF sh sv]) auto
  {
    fix r1 c1 assume a: "on_board r1 c1" "9 * r1 + c1 < 9 * r + c"
    then show "1 \<le> cell_at b' r1 c1 \<and> cell_at b' r1 c1 \<le> 9"
      using board_inv_filled[OF inv a] other[of r1 c1] by simp
    fix r2 c2 assume a2: "on_board r2 c2" "9 * r2 + c2 < 9 * r + c" "(r2, c2) \<noteq> (r1, c1)"
      "shares_region (r1, c1) (r2, c2)"
    show "cell_at b' r2 c2 \<noteq> cell_at b' r1 c1"
      using board_inv_differ[OF inv a a2] other[of r1 c1] other[of r2 c2] a a2(1,2) by simp
  }
  {
    fix r1 c1 assume a: "on_board r1 c1" "9 * r1 + c1 = 9 * r + c"
    then have "r1 = r \<and> c1 = c" by (intro flat_pos_inj[OF a(1) rc])
    then show "0 \<le> cell_at b' r1 c1 \<and> cell_at b' r1 c1 \<le> 9"
      using cell_at_set_value_same[OF sh sv rc] v by simp
  }
  {
    fix r1 c1 assume a: "on_board r1 c1" "9 * r + c < 9 * r1 + c1"
    then show "cell_at b' r1 c1 = 0"
      using board_inv_empty[OF inv a] other[of r1 c1] by simp
  }
qed

lemma board_inv_rollback_step:
  assumes inv: "board_inv b (9 * r + c)" and rc: "on_board r c"
    and sv: "set_value r c b 0 = Inr b'"
  shows "board_inv b' (9 * r + c - 1)"
proof (rule board_invI)
  note sh = board_inv_shape[OF inv]
  show "shape_ok b'" by (rule set_value_shape[OF sh sv])
  have other: "cell_at b' r1 c1 = cell_at b r1 c1"
    if "on_board r1 c1" "9 * r1 + c1 \<noteq> 9 * r + c" for r1 c1
    using that by (intro cell_at_set_value_other[OF sh sv]) auto
  {
    fix r1 c1 assume a: "on_board r1 c1" "9 * r1 + c1 < 9 * r + c - 1"
    then have a': "9 * r1 + c1 < 9 * r + c" by simp
    show "1 \<le> cell_at b' r1 c1 \<and> cell_at b' r1 c1 \<le> 9"
      using board_inv_filled[OF inv a(1) a'] other[of r1 c1] a by simp
    fix r2 c2 assume a2: "on_board r2 c2" "9 * r2 + c2 < 9 * r + c - 1" "(r2, c2) \<noteq> (r1, c1)"
      "shares_region (r1, c1) (r2, c2)"
    then have a2': "9 * r2 + c2 < 9 * r + c" by simp
    show "cell_at b' r2 c2 \<noteq> cell_at b' r1 c1"
      using board_inv_differ[OF inv a(1) a' a2(1) a2' a2(3,4)] other[of r1 c1] other[of r2 c2]
        a a2(1,2) by simp
  }
  {
    fix r1 c1 assume a: "on_board r1 c1" "9 * r1 + c1 = 9 * r + c - 1"
    then have a': "9 * r1 + c1 < 9 * r + c" by simp
    show "0 \<le> cell_at b' r1 c1 \<and> cell_at b' r1 c1 \<le> 9"
      using board_inv_filled[OF inv a(1) a'] other[of r1 c1] a by simp
  }
  {
    fix r1 c1 assume a: "on_board r1 c1" "9 * r + c - 1 < 9 * r1 + c1"
    show "cell_at b' r1 c1 = 0"
    proof (cases "9 * r1 + c1 = 9 * r + c")
      case True
      then have "r1 = r \<and> c1 = c" by (intro flat_pos_inj[OF a(1) rc])
      then show ?thesis using cell_at_set_value_same[OF sh sv rc] by simp
    next
      case False
      then have "9 * r + c < 9 * r1 + c1" using a(2) by simp
      from board_inv_empty[OF inv a(1) this] other[OF a(1) False] show ?thesis by simp
    qed
  }
qed

lemma board_inv_advance:
  assumes inv: "board_inv b (9 * r + c)" and rc: "on_board r c"
    and legal: "check_legal r c b = Inr True"
  shows "board_inv b (9 * r + c + 1)"
proof (rule board_invI)
  note sh = board_inv_shape[OF inv]
  show "shape_ok b" by (rule sh)
  from legal have nz: "cell_at b r c \<noteq> 0"
    and clash: "\<And>r' c'. on_board r' c' \<Longrightarrow> (r', c') \<noteq> (r, c) \<Longrightarrow>
        shares_region (r, c) (r', c') \<Longrightarrow> cell_at b r' c' \<noteq> cell_at b r c"
    unfolding check_legal_iff[OF sh on_boardD[OF rc]] on_board_def by auto
  have cur: "1 \<le> cell_at b r c \<and> cell_at b r c \<le> 9"
    using board_inv_cursor[OF inv rc] nz by simp
  {
    fix r1 c1 assume a: "on_board r1 c1" "9 * r1 + c1 < 9 * r + c + 1"
    show "1 \<le> cell_at b r1 c1 \<and> cell_at b r1 c1 \<le> 9"
    proof (cases "9 * r1 + c1 = 9 * r + c")
      case True
      then have "r1 = r \<and> c1 = c" by (intro flat_pos_inj[OF a(1) rc])
      then show ?thesis using cur by simp
    next
      case False
      then have "9 * r1 + c1 < 9 * r + c" using a(2) by simp
      from board_inv_filled[OF inv a(1) this] show ?thesis .
    qed
    fix r2 c2 assume a2: "on_board r2 c2" "9 * r2 + c2 < 9 * r + c + 1" "(r2, c2) \<noteq> (r1, c1)"
      "shares_region (r1, c1) (r2, c2)"
    show "cell_at b r2 c2 \<noteq> cell_at b r1 c1"
    proof (cases "9 * r1 + c1 = 9 * r + c")
      case True
      then have e: "r1 = r \<and> c1 = c" by (intro flat_pos_inj[OF a(1) rc])
      show ?thesis using clash[OF a2(1)] a2(3,4) e by simp
    next
      case False
      then have lt1: "9 * r1 + c1 < 9 * r + c" using a(2) by simp
      show ?thesis
      proof (cases "9 * r2 + c2 = 9 * r + c")
        case True
        then have e: "r2 = r \<and> c2 = c" by (intro flat_pos_inj[OF a2(1) rc])
        have "shares_region (r, c) (r1, c1)" using a2(4) e shares_region_sym by simp
        moreover have "(r1, c1) \<noteq> (r, c)" using a2(3) e by auto
        ultimately have "cell_at b r1 c1 \<noteq> cell_at b r c" using clash[OF a(1)] by simp
        then show ?thesis using e by simp
      next
        case False
        then have lt2: "9 * r2 + c2 < 9 * r + c" using a2(2) by simp
        from board_inv_differ[OF inv a(1) lt1 a2(1) lt2 a2(3,4)] show ?thesis .
      qed
    qed
  }
  {
    fix r1 c1 assume a: "on_board r1 c1" "9 * r1 + c1 = 9 * r + c + 1"
    then have "9 * r + c < 9 * r1 + c1" by simp
    from board_inv_empty[OF inv a(1) this] show "0 \<le> cell_at b r1 c1 \<and> cell_at b r1 c1 \<le> 9"
      by simp
  }
  {
    fix r1 c1 assume a: "on_board r1 c1" "9 * r + c + 1 < 9 * r1 + c1"
    then have "9 * r + c < 9 * r1 + c1" by simp
    from board_inv_empty[OF inv a(1) this] show "cell_at b r1 c1 = 0" .
  }
qed

lemma count_list_distinct: "distinct xs \<Longrightarrow> x \<in> set xs \<Longrightarrow> count_list xs x = 1"
  by (induction xs) auto

lemma region_has_each_digit_once:
  assumes inv: "board_inv b 81"
    and cs: "distinct cs" "length cs = 9"
    and on: "\<And>r c. (r, c) \<in> set cs \<Longrightarrow> on_board r c"
    and sh: "\<And>p q. p \<in> set cs \<Longrightarrow> q \<in> set cs \<Longrightarrow> shares_region p q"
  shows "has_each_digit_once (map (\<lambda>(r, c). cell_at b r c) cs)"
proof -
  let ?f = "\<lambda>(r, c). cell_at b r c"
  let ?vs = "map ?f cs"
  have lt: "9 * r + c < 81" if "on_board r c" for r c
    using on_boardD[OF that] by linarith
  have rng: "1 \<le> ?f p \<and> ?f p \<le> 9" if "p \<in> set cs" for p
  proof -
    obtain r c where p: "p = (r, c)" by (cases p)
    from on[of r c] that p have o: "on_board r c" by simp
    from board_inv_filled[OF inv o lt[OF o]] show ?thesis by (simp add: p)
  qed
  have inj: "inj_on ?f (set cs)"
  proof (rule inj_onI)
    fix p q assume pq: "p \<in> set cs" "q \<in> set cs" and eq: "?f p = ?f q"
    obtain r c where p: "p = (r, c)" by (cases p)
    obtain r' c' where q: "q = (r', c')" by (cases q)
    from on[of r c] pq(1) p have o: "on_board r c" by simp
    from on[of r' c'] pq(2) q have o': "on_board r' c'" by simp
    show "p = q"
    proof (rule ccontr)
      assume "p \<noteq> q"
      then have ne: "(r', c') \<noteq> (r, c)" using p q by auto
      have "shares_region (r, c) (r', c')" using sh[OF pq] p q by simp
      from board_inv_differ[OF inv o lt[OF o] o' lt[OF o'] ne this] eq show False
        by (simp add: p q)
    qed
  qed
  have dist: "distinct ?vs" using cs(1) inj by (simp add: distinct_map)
  have sub: "set ?vs \<subseteq> {1..9}" using rng by auto
  have "card (set ?vs) = 9" using distinct_card[OF dist] cs(2) by simp
  then have "card (set ?vs) = card {1..9::int}" by simp
  with sub have all: "set ?vs = {1..9}" by (intro card_subset_eq) simp_all
  have once: "count_list ?vs d = 1" if "d \<in> {1..9}" for d
    using that all by (intro count_list_distinct[OF dist]) simp
  have nz: "x \<noteq> 0" if "x \<in> set ?vs" for x using that all by auto
  show ?thesis
    unfolding has_each_digit_once_def list_all_iff using once nz by simp
qed

lemma block_cells_share:
  "p \<in> set (block_cells r c) \<Longrightarrow> q \<in> set (block_cells r c) \<Longrightarrow> shares_region p q"
  by (cases p; cases q) (simp add: in_block_cells shares_region_def)

lemma row_cells_share:
  "p \<in> set (row_cells r) \<Longrightarrow> q \<in> set (row_cells r) \<Longrightarrow> shares_region p q"
  by (cases p; cases q) (simp add: in_row_cells shares_region_def)

lemma col_cells_share:
  "p \<in> set (col_cells c) \<Longrightarrow> q \<in> set (col_cells c) \<Longrightarrow> shares_region p q"
  by (cases p; cases q) (simp add: in_col_cells shares_region_def)

lemma length_region_cells:
  "length (block_cells r c) = 9" "length (row_cells r) = 9" "length (col_cells c) = 9"
  by (simp_all add: block_cells_def row_cells_def col_cells_def upto_0_2 upto_0_8)

lemma board_inv_full:
  assumes inv: "board_inv b 81"
  shows "full_board b"
proof -
  note sh = board_inv_shape[OF inv]
  have "has_each_digit_once (current_cell_values b (k div 3) (k mod 3))
      \<and> has_each_digit_once (horizontal_to_val b (k div 3) (k mod 3))
      \<and> has_each_digit_once (vertical_to_val b (k div 3) (k mod 3))"
    if k: "0 \<le> k" "k \<le> 8" for k :: int
  proof (intro conjI)
    note kb = div_mod_3_bounds[OF k]
    let ?r = "3 * (k div 3)" and ?c = "3 * (k mod 3)"
    have rc: "0 \<le> ?r" "?r \<le> 8" "0 \<le> ?c" "?c \<le> 8" using kb by simp_all
    have "current_cell_values b (k div 3) (k mod 3)
        = map (\<lambda>(r, c). cell_at b r c) (block_cells ?r ?c)"
      using current_cell_values_cells[OF sh rc] by (simp add: div3_facts)
    moreover have "has_each_digit_once (map (\<lambda>(r, c). cell_at b r c) (block_cells ?r ?c))"
    proof (rule region_has_each_digit_once[OF inv distinct_block_cells length_region_cells(1)])
      fix r c assume "(r, c) \<in> set (block_cells ?r ?c)"
      from block_cells_in_range[OF rc this] show "on_board r c" by (simp add: on_board_def)
    qed (rule block_cells_share)
    ultimately show "has_each_digit_once (current_cell_values b (k div 3) (k mod 3))" by simp
    have "has_each_digit_once (map (\<lambda>(r, c). cell_at b r c) (row_cells k))"
    proof (rule region_has_each_digit_once[OF inv distinct_row_cells length_region_cells(2)])
      fix r c assume "(r, c) \<in> set (row_cells k)"
      then show "on_board r c" using k by (simp add: in_row_cells on_board_def)
    qed (rule row_cells_share)
    then show "has_each_digit_once (horizontal_to_val b (k div 3) (k mod 3))"
      using horizontal_to_val_cells[OF sh k] by simp
    have "has_each_digit_once (map (\<lambda>(r, c). cell_at b r c) (col_cells k))"
    proof (rule region_has_each_digit_once[OF inv distinct_col_cells length_region_cells(3)])
      fix r c assume "(r, c) \<in> set (col_cells k)"
      then show "on_board r c" using k by (simp add: in_col_cells on_board_def)
    qed (rule col_cells_share)
    then show "has_each_digit_once (vertical_to_val b (k div 3) (k mod 3))"
      using vertical_to_val_cells[OF sh k] by simp
  qed
  then show ?thesis
    unfolding full_board_def list_all_iff using sh by simp
qed

definition pool_inv :: "gen_state \<Rightarrow> bool" where
  "pool_inv s \<longleftrightarrow>
     distinct (possible_values s) \<and> set (possible_values s) \<subseteq> {0..9} \<and>
     (possible_values s \<noteq> [] \<longrightarrow> val s \<in> set (possible_values s)) \<and>
     (0 \<in> set (possible_values s) \<longrightarrow> val s = 0)"

definition gen_inv :: "gen_state \<Rightarrow> bool" where
  "gen_inv s \<longleftrightarrow>
     board_inv (init_board s) (9 * row_idx s + col_idx s) \<and>
     (case pc s of
        Outer_loop \<Rightarrow> col_idx s = 0 \<and> 0 \<le> row_idx s \<and> row_idx s \<le> 9
      | Middle_loop \<Rightarrow> 0 \<le> row_idx s \<and> row_idx s \<le> 8 \<and> 0 \<le> col_idx s \<and> col_idx s \<le> 9
      | Inner_loop \<Rightarrow> on_board (row_idx s) (col_idx s) \<and> pool_inv s)"

lemma upto_0_9: "[0..9::int] = [0, 1, 2, 3, 4, 5, 6, 7, 8, 9]"
  by (simp add: upto.simps)

lemma pool_inv_fresh: "pool_inv (s\<lparr>possible_values := [0..9], val := 0\<rparr>)"
  by (simp add: pool_inv_def upto_0_9)

lemma rollback_inv:
  assumes "board_inv (init_board s) (9 * row_idx s + col_idx s)"
    and "on_board (row_idx s) (col_idx s)"
    and "int n \<le> 9 * row_idx s + col_idx s"
  shows "\<exists>s'. rollback n s = Inr s'
      \<and> board_inv (init_board s') (9 * row_idx s' + col_idx s')
      \<and> on_board (row_idx s') (col_idx s')
      \<and> 9 * row_idx s' + col_idx s' = 9 * row_idx s + col_idx s - int n
      \<and> rng s' = rng s \<and> pc s' = pc s"
  using assms
proof (induction n arbitrary: s)
  case 0
  then show ?case by simp
next
  case (Suc n)
  let ?r = "row_idx s" and ?c = "col_idx s"
  note ob = on_boardD[OF Suc.prems(2)]
  obtain b where sv: "set_value ?r ?c (init_board s) 0 = Inr b"
    using set_value_on_board[OF Suc.prems(2)] by blast
  note inv' = board_inv_rollback_step[OF Suc.prems(1,2) sv]
  show ?case
  proof (cases "?c > 0")
    case True
    let ?s1 = "s\<lparr>init_board := b, col_idx := ?c - 1\<rparr>"
    have 1: "board_inv (init_board ?s1) (9 * row_idx ?s1 + col_idx ?s1)"
      using inv' by (simp add: algebra_simps)
    have 2: "on_board (row_idx ?s1) (col_idx ?s1)"
      using ob True by (simp add: on_board_def)
    have 3: "int n \<le> 9 * row_idx ?s1 + col_idx ?s1"
      using Suc.prems(3) by simp
    from Suc.IH[OF 1 2 3] obtain s' where
      "rollback n ?s1 = Inr s'" "board_inv (init_board s') (9 * row_idx s' + col_idx s')"
      "on_board (row_idx s') (col_idx s')"
      "9 * row_idx s' + col_idx s' = 9 * row_idx ?s1 + col_idx ?s1 - int n"
      "rng s' = rng ?s1" "pc s' = pc ?s1"
      by blast
    then show ?thesis using True sv by simp
  next
    case False
    then have c0: "?c = 0" using ob by simp
    have r1: "1 \<le> ?r" using Suc.prems(3) c0 by simp
    let ?s1 = "s\<lparr>init_board := b, row_idx := ?r - 1, col_idx := 8\<rparr>"
    have 1: "board_inv (init_board ?s1) (9 * row_idx ?s1 + col_idx ?s1)"
      using inv' c0 by (simp add: algebra_simps)
    have 2: "on_board (row_idx ?s1) (col_idx ?s1)"
      using ob r1 by (simp add: on_board_def)
    have 3: "int n \<le> 9 * row_idx ?s1 + col_idx ?s1"
      using Suc.prems(3) c0 by simp
    from Suc.IH[OF 1 2 3] obtain s' where
      "rollback n ?s1 = Inr s'" "board_inv (init_board s') (9 * row_idx s' + col_idx s')"
      "on_board (row_idx s') (col_idx s')"
      "9 * row_idx s' + col_idx s' = 9 * row_idx ?s1 + col_idx ?s1 - int n"
      "rng s' = rng ?s1" "pc s' = pc ?s1"
      by blast
    then show ?thesis using False c0 sv by simp
  qed
qed

lemma rollback_count_bound:
  assumes "on_board r c"
  shows "int (nat (min rollback_factor (c + r * 8))) \<le> 9 * r + c"
  using on_boardD[OF assms] by linarith

lemma check_legal_on_board:
  assumes "shape_ok b" "on_board r c"
  shows "\<exists>x. check_legal r c b = Inr x"
  using check_legal_iff[OF assms(1) on_boardD[OF assms(2)]] by simp

lemma step_outer:
  assumes "gen_inv s" "pc s = Outer_loop"
  shows "(\<exists>s'. step rf s = Running s' \<and> gen_inv s')
       \<or> (\<exists>b. step rf s = Returned b \<and> full_board b)"
proof (cases "row_idx s < 9")
  case True
  then show ?thesis using assms by (auto simp: step_def gen_inv_def)
next
  case False
  then have "row_idx s = 9" "col_idx s = 0" using assms by (simp_all add: gen_inv_def)
  then have "board_inv (init_board s) 81" using assms(1) by (simp add: gen_inv_def)
  from board_inv_full[OF this] False assms(2) show ?thesis by (simp add: step_def)
qed

lemma step_middle:
  assumes "gen_inv s" "pc s = Middle_loop"
  shows "\<exists>s'. step rf s = Running s' \<and> gen_inv s'"
proof (cases "col_idx s < 9")
  case True
  then show ?thesis
    using assms by (simp add: step_def gen_inv_def on_board_def pool_inv_def upto_0_9)
next
  case False
  then have c: "col_idx s = 9" using assms by (simp add: gen_inv_def)
  have "9 * (row_idx s + 1) = 9 * row_idx s + 9" by simp
  then show ?thesis using assms False c by (simp add: step_def gen_inv_def)
qed

lemma step_inner:
  assumes "gen_inv s" "pc s = Inner_loop"
  shows "\<exists>s'. step rf s = Running s' \<and> gen_inv s'"
proof -
  let ?r = "row_idx s" and ?c = "col_idx s" and ?b = "init_board s"
  from assms have inv: "board_inv ?b (9 * ?r + ?c)" and ob: "on_board ?r ?c"
    and pool: "pool_inv s"
    by (simp_all add: gen_inv_def)
  note sh = board_inv_shape[OF inv]
  from check_legal_on_board[OF sh ob] obtain x where legal: "check_legal ?r ?c ?b = Inr x"
    by blast
  show ?thesis
  proof (cases x)
    case True
    from board_inv_advance[OF inv ob] legal True
    have "board_inv ?b (9 * ?r + (?c + 1))" by (simp add: add.assoc)
    then show ?thesis
      using legal True assms(2) on_boardD[OF ob] by (simp add: step_def gen_inv_def)
  next
    case False
    show ?thesis
    proof (cases "possible_values s = []")
      case True
      from rollback_inv[OF inv ob rollback_count_bound[OF ob, of rf]] obtain s' where
        rb: "rollback (nat (min rf (?c + ?r * 8))) s = Inr s'"
        and inv': "board_inv (init_board s') (9 * row_idx s' + col_idx s')"
        and ob': "on_board (row_idx s') (col_idx s')"
        and pc': "pc s' = pc s"
        by blast
      have "gen_inv (s'\<lparr>possible_values := [0..9], val := 0\<rparr>)"
        using inv' ob' pc' assms(2) pool_inv_fresh[of s'] by (simp add: gen_inv_def)
      then show ?thesis
        using legal False True assms(2) rb by (simp add: step_def)
    next
      case ne: False
      from pool ne have vin: "val s \<in> set (possible_values s)"
        and dist: "distinct (possible_values s)"
        and sub: "set (possible_values s) \<subseteq> {0..9}"
        and zero: "0 \<in> set (possible_values s) \<longrightarrow> val s = 0"
        by (simp_all add: pool_inv_def)
      define pv where "pv = remove1 (val s) (possible_values s)"
      have rm: "list_remove (val s) (possible_values s) = Inr pv"
        using vin by (simp add: list_remove_def pv_def)
      have pvset: "set pv = set (possible_values s) - {val s}"
        unfolding pv_def using dist by (rule set_remove1_eq)
      have pvdist: "distinct pv" unfolding pv_def using dist by simp
      have nozero: "0 \<notin> set pv" using pvset zero by auto
      show ?thesis
      proof (cases "pv = []")
        case True
        have "gen_inv (s\<lparr>possible_values := pv\<rparr>)"
          using inv ob assms(2) True by (simp add: gen_inv_def pool_inv_def)
        then show ?thesis
          using legal False ne assms(2) rm True by (simp add: step_def)
      next
        case pvne: False
        define v where "v = pv ! (rng s 0 mod length pv)"
        have vpv: "v \<in> set pv" unfolding v_def using pvne by simp
        then have vr: "0 \<le> v" "v \<le> 9" using pvset sub by auto
        obtain b' where sv: "set_value ?r ?c ?b v = Inr b'"
          using set_value_on_board[OF ob] by blast
        note inv' = board_inv_set_cursor[OF inv ob vr sv]
        let ?s' = "s\<lparr>possible_values := pv, val := v, init_board := b',
                       rng := (\<lambda>i. rng s (Suc i))\<rparr>"
        have pool': "pool_inv ?s'"
          using pvdist pvset sub vpv nozero by (auto simp: pool_inv_def)
        have "gen_inv ?s'"
          using inv' ob assms(2) pool' by (simp add: gen_inv_def)
        then show ?thesis
          using legal False ne assms(2) rm pvne sv
          by (simp add: step_def Let_def v_def[symmetric])
      qed
    qed
  qed
qed

lemma step_inv:
  assumes "gen_inv s"
  shows "(\<exists>s'. step rf s = Running s' \<and> gen_inv s')
       \<or> (\<exists>b. step rf s = Returned b \<and> full_board b)"
  using step_outer[OF assms] step_middle[OF assms] step_inner[OF assms]
  by (cases "pc s") blast+

lemma steps_inv:
  assumes "gen_inv s"
  shows "(\<exists>s'. steps rf n s = Running s' \<and> gen_inv s')
       \<or> (\<exists>b. steps rf n s = Returned b \<and> full_board b)"
  using assms
proof (induction n arbitrary: s)
  case 0
  then show ?case by simp
next
  case (Suc n)
  from step_inv[OF Suc.prems, of rf] show ?case
  proof
    assume "\<exists>s'. step rf s = Running s' \<and> gen_inv s'"
    then obtain s' where s': "step rf s = Running s'" "gen_inv s'" by blast
    from Suc.IH[OF s'(2)] s'(1) show ?thesis by simp
  next
    assume "\<exists>b. step rf s = Returned b \<and> full_board b"
    then show ?thesis by auto
  qed
qed

lemma gen_inv_initial: "gen_inv (initial rnd)"
  using board_inv_zeros by (simp add: gen_inv_def initial_def)

section \<open>Claims about the generator\<close>

definition lucky_draws :: "nat list" where
  "lucky_draws =
     [0, 1, 2, 3, 4, 5, 6, 7, 8, 3, 4, 5, 6, 7, 8, 0, 1, 2, 6, 7, 8, 0, 1, 2, 3, 4, 5,
      1, 2, 3, 4, 5, 6, 7, 8, 0, 4, 5, 6, 7, 8, 0, 1, 2, 3, 7, 8, 0, 1, 2, 3, 4, 5, 6,
      2, 3, 4, 5, 6, 7, 8, 0, 1, 5, 6, 7, 8, 0, 1, 2, 3, 4, 8, 0, 1, 2, 3, 4, 5, 6, 7]"

definition lucky_rnd :: "nat \<Rightarrow> nat" where
  "lucky_rnd i = lucky_draws ! (i - 81)"

definition solved_board :: board where
  "solved_board =
     [[[[1, 2, 3], [4, 5, 6], [7, 8, 9]], [[4, 5, 6], [7, 8, 9], [1, 2, 3]],
       [[7, 8, 9], [1, 2, 3], [4, 5, 6]]],
      [[[2, 3, 4], [5, 6, 7], [8, 9, 1]], [[5, 6, 7], [8, 9, 1], [2, 3, 4]],
       [[8, 9, 1], [2, 3, 4], [5, 6, 7]]],
      [[[3, 4, 5], [6, 7, 8], [9, 1, 2]], [[6, 7, 8], [9, 1, 2], [3, 4, 5]],
       [[9, 1, 2], [3, 4, 5], [6, 7, 8]]]]"

lemma lucky_run: "makeBoard 8 262 lucky_rnd = Some (Inr solved_board)"
  by code_simp

lemma solved_full: "full_board solved_board"
  by code_simp

lemma makeBoard_outcomes:
  "makeBoard rf fuel rnd = None \<or> (\<exists>b. makeBoard rf fuel rnd = Some (Inr b) \<and> full_board b)"
  using steps_inv[OF gen_inv_initial, of rf fuel rnd]
  by (auto simp: makeBoard_def)

text \<open>
  C1. Every board returned by \<open>makeBoard\<close> satisfies the full-board invariant: every block,
  every flat row and every flat column contains each of the digits 1..9 exactly once, and no
  cell is zero.
\<close>

theorem makeBoard_returns_full_board:
  "makeBoard rollback_factor fuel rnd = Some (Inr b) \<Longrightarrow> full_board b"
  using makeBoard_outcomes[of rollback_factor fuel rnd] by auto

theorem makeBoard_returns_full_board_witness:
  "makeBoard 8 262 lucky_rnd = Some (Inr solved_board) \<and> full_board solved_board"
  using makeBoard_returns_full_board[OF lucky_run] lucky_run by simp




subsection \<open>A run that never returns\<close>

lemma steps_add:
  "steps rf (m + n) s =
     (case steps rf m s of
        Running s' \<Rightarrow> steps rf n s'
      | Returned b \<Rightarrow> Returned b
      | Raised e \<Rightarrow> Raised e)"
  by (induction m arbitrary: s) (auto split: outcome.splits)

lemma steps_prefix_running:
  assumes "steps rf (m + n) s = Running t"
  shows "\<exists>u. steps rf m s = Running u"
  using assms unfolding steps_add by (cases "steps rf m s") simp_all

lemma rollback_rng: "rollback n s = Inr s' \<Longrightarrow> rng s' = rng s"
  by (induction n arbitrary: s) (auto split: sum.splits if_splits)

lemma step_rng_const:
  assumes "rng s = (\<lambda>i. c)" "step rf s = Running s'"
  shows "rng s' = (\<lambda>i. c)"
proof (cases "pc s")
  case Outer_loop
  then show ?thesis using assms by (auto simp: step_def split: if_splits)
next
  case Middle_loop
  then show ?thesis using assms by (auto simp: step_def split: if_splits)
next
  case Inner_loop
  then show ?thesis
    using assms
    by (auto simp: step_def Let_def split: if_splits sum.splits bool.splits dest: rollback_rng)
qed

lemma steps_rng_const:
  "rng s = (\<lambda>i. c) \<Longrightarrow> steps rf n s = Running s' \<Longrightarrow> rng s' = (\<lambda>i. c)"
proof (induction n arbitrary: s)
  case 0
  then show ?case by simp
next
  case (Suc n)
  from Suc.prems(2) obtain s1 where s1: "step rf s = Running s1" "steps rf n s1 = Running s'"
    by (auto split: outcome.splits)
  from Suc.IH[OF step_rng_const[OF Suc.prems(1) s1(1)] s1(2)] show ?case .
qed

text \<open>
  The state at the head of the inner loop at flat (0, 8), with flat row 0 filled with 1 to 8,
  when every draw picks the first remaining candidate.
\<close>

definition stall_state_0_8 :: gen_state where
  "stall_state_0_8 =
     \<lparr>row_idx = 0, col_idx = 8,
      init_board =
        [[[[1, 2, 3], [0, 0, 0], [0, 0, 0]], [[4, 5, 6], [0, 0, 0], [0, 0, 0]],
          [[7, 8, 0], [0, 0, 0], [0, 0, 0]]],
         [[[0, 0, 0], [0, 0, 0], [0, 0, 0]], [[0, 0, 0], [0, 0, 0], [0, 0, 0]],
          [[0, 0, 0], [0, 0, 0], [0, 0, 0]]],
         [[[0, 0, 0], [0, 0, 0], [0, 0, 0]], [[0, 0, 0], [0, 0, 0], [0, 0, 0]],
          [[0, 0, 0], [0, 0, 0], [0, 0, 0]]]],
      possible_values = [0, 1, 2, 3, 4, 5, 6, 7, 8, 9], val = 0, rng = (\<lambda>i. 0),
      pc = Inner_loop\<rparr>"

definition same_locals :: "gen_state \<Rightarrow> gen_state \<Rightarrow> bool" where
  "same_locals s t \<longleftrightarrow>
     row_idx s = row_idx t \<and> col_idx s = col_idx t \<and> init_board s = init_board t \<and>
     possible_values s = possible_values t \<and> val s = val t \<and> pc s = pc t"

lemma same_locals_eq: "same_locals s t \<Longrightarrow> rng s = rng t \<Longrightarrow> s = t"
  by (simp add: same_locals_def)

lemma reach_stall_locals:
  "case steps 8 54 (initial (\<lambda>i. 0)) of
     Running s \<Rightarrow> same_locals s stall_state_0_8 | Returned b \<Rightarrow> False | Raised e \<Rightarrow> False"
  by code_simp

lemma cycle_stall_locals:
  "case steps 8 59 stall_state_0_8 of
     Running s \<Rightarrow> same_locals s stall_state_0_8 | Returned b \<Rightarrow> False | Raised e \<Rightarrow> False"
  by code_simp

lemma reach_stall: "steps 8 54 (initial (\<lambda>i. 0)) = Running stall_state_0_8"
proof -
  from reach_stall_locals obtain s where
    s: "steps 8 54 (initial (\<lambda>i. 0)) = Running s" "same_locals s stall_state_0_8"
    by (auto split: outcome.splits)
  have "rng (initial (\<lambda>i. 0)) = (\<lambda>i. 0)" by (simp add: initial_def)
  from steps_rng_const[OF this s(1)] have "rng s = rng stall_state_0_8"
    by (simp add: stall_state_0_8_def)
  from same_locals_eq[OF s(2) this] s(1) show ?thesis by simp
qed

lemma cycle_stall: "steps 8 59 stall_state_0_8 = Running stall_state_0_8"
proof -
  from cycle_stall_locals obtain s where
    s: "steps 8 59 stall_state_0_8 = Running s" "same_locals s stall_state_0_8"
    by (auto split: outcome.splits)
  have "rng stall_state_0_8 = (\<lambda>i. 0)" by (simp add: stall_state_0_8_def)
  from steps_rng_const[OF this s(1)] have "rng s = rng stall_state_0_8"
    by (simp add: stall_state_0_8_def)
  from same_locals_eq[OF s(2) this] s(1) show ?thesis by simp
qed

lemma stall_forever: "\<exists>s. steps 8 n stall_state_0_8 = Running s"
proof (induction n rule: less_induct)
  case (less n)
  show ?case
  proof (cases "n < 59")
    case True
    then have "59 = n + (59 - n)" by simp
    with cycle_stall have "steps 8 (n + (59 - n)) stall_state_0_8 = Running stall_state_0_8"
      by simp
    from steps_prefix_running[OF this] show ?thesis .
  next
    case False
    then have n: "n = 59 + (n - 59)" and lt: "n - 59 < n" by simp_all
    have "steps 8 n stall_state_0_8 = steps 8 (n - 59) stall_state_0_8"
      by (subst n, subst steps_add) (simp add: cycle_stall)
    with less.IH[OF lt] show ?thesis by simp
  qed
qed

lemma first_candidate_forever: "\<exists>s. steps 8 n (initial (\<lambda>i. 0)) = Running s"
proof (cases "n < 54")
  case True
  then have "54 = n + (54 - n)" by simp
  with reach_stall have "steps 8 (n + (54 - n)) (initial (\<lambda>i. 0)) = Running stall_state_0_8"
    by simp
  from steps_prefix_running[OF this] show ?thesis .
next
  case False
  then have n: "n = 54 + (n - 54)" by simp
  have "steps 8 n (initial (\<lambda>i. 0)) = steps 8 (n - 54) stall_state_0_8"
    by (subst n, subst steps_add) (simp add: reach_stall)
  with stall_forever[of "n - 54"] show ?thesis by simp
qed

lemma makeBoard_more_fuel:
  assumes "makeBoard rf fuel rnd = Some r"
  shows "makeBoard rf (fuel + k) rnd = Some r"
  using assms unfolding makeBoard_def steps_add
  by (cases "steps rf fuel (initial rnd)") simp_all

text \<open>
  C9, as the spec states it: for every sequence of random draws \<open>makeBoard\<close> eventually
  returns. With rollback factor 8 and draws that always pick the first remaining candidate,
  the run fills flat row 0 with 1 to 9 and row 1 with 4 5 6 1 2 3, finds no digit for
  (1, 6), rolls back eight cells to (0, 7) and repeats: it never returns.
\<close>

theorem makeBoard_terminates_counterexample:
  "\<forall>fuel. makeBoard 8 fuel (\<lambda>i. 0) = None"
proof
  fix fuel
  from first_candidate_forever[of fuel] show "makeBoard 8 fuel (\<lambda>i. 0) = None"
    by (auto simp: makeBoard_def)
qed

text \<open>
  C9, amended. \<open>makeBoard\<close> has no error path: for every sequence of draws and every bound on
  the number of steps, the run is either still in its loops or has returned a board that
  satisfies the full-board invariant, and a run that has returned returns the same board
  under any larger bound. Whether it returns depends on the draws: it does on the draws
  \<open>lucky_draws\<close> (after 262 steps), and there is no bound on the steps that holds for every
  sequence.
\<close>

theorem makeBoard_no_error_path:
  "(makeBoard rollback_factor fuel rnd = None
      \<or> (\<exists>b. makeBoard rollback_factor fuel rnd = Some (Inr b) \<and> full_board b))
   \<and> (\<forall>r. makeBoard rollback_factor fuel rnd = Some r \<longrightarrow>
          makeBoard rollback_factor (fuel + k) rnd = Some r)
   \<and> makeBoard 8 262 lucky_rnd = Some (Inr solved_board)"
  using makeBoard_outcomes[of rollback_factor fuel rnd] makeBoard_more_fuel lucky_run
  by blast

theorem makeBoard_no_error_path_witness:
  "makeBoard 8 262 lucky_rnd = Some (Inr solved_board)
   \<and> makeBoard 8 (262 + 100) lucky_rnd = Some (Inr solved_board)
   \<and> full_board solved_board"
proof -
  note t = makeBoard_no_error_path[of 8 262 lucky_rnd 100]
  from t have r: "makeBoard 8 262 lucky_rnd = Some (Inr solved_board)" by blast
  with t have "makeBoard 8 (262 + 100) lucky_rnd = Some (Inr solved_board)" by blast
  moreover from t r have "full_board solved_board" by auto
  ultimately show ?thesis using r by simp
qed

end
